theory Spec2Isabelle
  imports
    Main
    "HOL-Library.Char_ord"
    "HOL-Library.List_Lexorder"
    "HOL-Library.Multiset"
    "HOL-Library.AList"
begin

section \<open>JSON values and the JavaScript primitives the engine relies on\<close>

text \<open>
  The comparison engine works on data produced by \<^verbatim>\<open>JSON.parse\<close>. A value is
  \<^verbatim>\<open>null\<close>, a boolean, a number, a string, an array or an object. An object is
  kept as the list of its properties in insertion order; where a name is bound twice the
  first binding is the property (a parsed object never binds a name twice).

  Boundaries of the model:
  \<^item> numbers are integers, printed in decimal (the engine does no arithmetic on data);
  \<^item> a string is a list of 8-bit code units, compared unit by unit as JavaScript does;
  \<^item> a property read and the \<^verbatim>\<open>in\<close> operator look at the own properties of the
    receiver and then along its prototype chain. The built-in prototypes are those of
    ECMAScript 2024 with its Annex B, untouched by other scripts, and the text of a
    built-in function is the one V8 prints (the extension runs in Chrome);
  \<^item> a \<^verbatim>\<open>TypeError\<close> thrown by the runtime is the value \<open>Inl TypeError\<close>.
\<close>

datatype jvalue =
    JNull
  | JBool bool
  | JNum int
  | JStr string
  | JArr "jvalue list"
  | JObj "(string \<times> jvalue) list"

datatype error = TypeError

text \<open>What a property read can return besides parsed data: a member of a built-in
  prototype. \<open>Prototype c\<close> is the prototype object itself (read through
  \<^verbatim>\<open>__proto__\<close>), \<open>Constructor c\<close> the constructor function, and \<open>Method c name\<close>
  the function that the prototype of \<open>c\<close> holds under \<open>name\<close>. Two such values are equal
  exactly when they are the same object.\<close>

datatype js_class = ObjectClass | ArrayClass | StringClass | NumberClass | BooleanClass

datatype builtin = Prototype js_class | Constructor js_class | Method js_class string

datatype rvalue = Data jvalue | Builtin builtin

datatype js_type = T_object | T_boolean | T_number | T_string | T_function | T_undefined

fun typeof :: "jvalue \<Rightarrow> js_type" where
  "typeof JNull = T_object"
| "typeof (JBool _) = T_boolean"
| "typeof (JNum _) = T_number"
| "typeof (JStr _) = T_string"
| "typeof (JArr _) = T_object"
| "typeof (JObj _) = T_object"

subsection \<open>Number and string conversion\<close>

definition digit_char :: "nat \<Rightarrow> char" where
  "digit_char n = char_of (48 + n)"

fun show_nat :: "nat \<Rightarrow> string" where
  "show_nat n = (if n < 10 then [digit_char n] else show_nat (n div 10) @ [digit_char (n mod 10)])"

declare show_nat.simps [simp del]

definition show_int :: "int \<Rightarrow> string" where
  "show_int i = (if i < 0 then CHR ''-'' # show_nat (nat (- i)) else show_nat (nat i))"

fun join :: "string \<Rightarrow> string list \<Rightarrow> string" where
  "join sep [] = []"
| "join sep [x] = x"
| "join sep (x # y # ys) = x @ sep @ join sep (y # ys)"

text \<open>The first error of a list of results, or all the values.\<close>

fun sequence :: "(error + 'a) list \<Rightarrow> error + 'a list" where
  "sequence [] = Inr []"
| "sequence (Inl e # rs) = Inl e"
| "sequence (Inr x # rs) = (case sequence rs of Inl e \<Rightarrow> Inl e | Inr xs \<Rightarrow> Inr (x # xs))"

text \<open>The conversion of parsed data to a string. An array prints its elements joined by
  commas, a \<^verbatim>\<open>null\<close> element as the empty string. A plain object is converted by the
  first callable of its \<^verbatim>\<open>toString\<close> and \<^verbatim>\<open>valueOf\<close> that returns a primitive:
  without an own \<^verbatim>\<open>toString\<close> that is \<^verbatim>\<open>Object.prototype.toString\<close>, which prints
  \<^verbatim>\<open>[object Object]\<close>; an own \<^verbatim>\<open>toString\<close> is parsed data and not callable, and
  \<^verbatim>\<open>valueOf\<close> (own: not callable; inherited: returns the object) gives no primitive,
  so the conversion throws.\<close>

fun to_string :: "jvalue \<Rightarrow> error + string" where
  "to_string JNull = Inr ''null''"
| "to_string (JBool b) = Inr (if b then ''true'' else ''false'')"
| "to_string (JNum n) = Inr (show_int n)"
| "to_string (JStr s) = Inr s"
| "to_string (JArr xs) =
     (case sequence (map (\<lambda>x. if x = JNull then Inr [] else to_string x) xs) of
        Inl e \<Rightarrow> Inl e
      | Inr parts \<Rightarrow> Inr (join '','' parts))"
| "to_string (JObj kvs) =
     (if map_of kvs ''toString'' \<noteq> None then Inl TypeError else Inr ''[object Object]'')"

definition class_name :: "js_class \<Rightarrow> string" where
  "class_name c =
     (case c of ObjectClass \<Rightarrow> ''Object'' | ArrayClass \<Rightarrow> ''Array'' | StringClass \<Rightarrow> ''String''
      | NumberClass \<Rightarrow> ''Number'' | BooleanClass \<Rightarrow> ''Boolean'')"

definition native_function :: "string \<Rightarrow> string" where
  "native_function name = ''function '' @ name @ ''() { [native code] }''"

text \<open>\<^verbatim>\<open>String(v)\<close> for what a property read returned. \<^verbatim>\<open>Array.prototype\<close> is an empty
  array, and the prototypes of the wrappers hold the values \<^verbatim>\<open>""\<close>, \<^verbatim>\<open>0\<close> and
  \<^verbatim>\<open>false\<close>.\<close>

fun js_String :: "rvalue \<Rightarrow> error + string" where
  "js_String (Data v) = to_string v"
| "js_String (Builtin (Prototype c)) =
     Inr (case c of ObjectClass \<Rightarrow> ''[object Object]'' | ArrayClass \<Rightarrow> [] | StringClass \<Rightarrow> []
          | NumberClass \<Rightarrow> ''0'' | BooleanClass \<Rightarrow> ''false'')"
| "js_String (Builtin (Constructor c)) = Inr (native_function (class_name c))"
| "js_String (Builtin (Method c name)) = Inr (native_function name)"

subsection \<open>\<^verbatim>\<open>JSON.stringify\<close> on primitives\<close>

definition hex_digit :: "nat \<Rightarrow> char" where
  "hex_digit n = (if n < 10 then char_of (48 + n) else char_of (87 + n))"

definition quote_char :: "char \<Rightarrow> string" where
  "quote_char c =
     (if c = CHR 0x08 then [CHR 0x5C, CHR ''b'']
      else if c = CHR 0x09 then [CHR 0x5C, CHR ''t'']
      else if c = CHR 0x0A then [CHR 0x5C, CHR ''n'']
      else if c = CHR 0x0C then [CHR 0x5C, CHR ''f'']
      else if c = CHR 0x0D then [CHR 0x5C, CHR ''r'']
      else if c = CHR 0x22 then [CHR 0x5C, CHR 0x22]
      else if c = CHR 0x5C then [CHR 0x5C, CHR 0x5C]
      else if (of_char c :: nat) < 32 then
        [CHR 0x5C, CHR ''u'', CHR ''0'', CHR ''0'',
         hex_digit (of_char c div 16), hex_digit (of_char c mod 16)]
      else [c])"

definition quote_json_string :: "string \<Rightarrow> string" where
  "quote_json_string s = CHR 0x22 # concat (map quote_char s) @ [CHR 0x22]"

fun json_stringify :: "jvalue \<Rightarrow> string" where
  "json_stringify JNull = ''null''"
| "json_stringify (JBool b) = (if b then ''true'' else ''false'')"
| "json_stringify (JNum n) = show_int n"
| "json_stringify (JStr s) = quote_json_string s"
| "json_stringify _ = []"

subsection \<open>Objects\<close>

text \<open>\<^verbatim>\<open>Object.keys\<close> of an object, an array or a string, and the own properties of a
  value (an array and a string also own \<^verbatim>\<open>length\<close>).\<close>

definition index_names :: "nat \<Rightarrow> string list" where
  "index_names n = map show_nat [0..<n]"

fun own_props :: "jvalue \<Rightarrow> (string \<times> jvalue) list" where
  "own_props (JObj kvs) = kvs"
| "own_props (JArr xs) = zip (index_names (length xs)) xs"
| "own_props (JStr s) = zip (index_names (length s)) (map (\<lambda>c. JStr [c]) s)"
| "own_props _ = []"

definition object_keys :: "jvalue \<Rightarrow> string list" where
  "object_keys v = remdups (map fst (own_props v))"

fun has_length :: "jvalue \<Rightarrow> nat option" where
  "has_length (JArr xs) = Some (length xs)"
| "has_length (JStr s) = Some (length s)"
| "has_length _ = None"

definition own_property :: "jvalue \<Rightarrow> string \<Rightarrow> jvalue option" where
  "own_property v name =
     (case has_length v of
        Some n \<Rightarrow> if name = ''length'' then Some (JNum (int n)) else map_of (own_props v) name
      | None \<Rightarrow> map_of (own_props v) name)"

subsection \<open>The prototype chain\<close>

text \<open>The prototype of a value: \<^verbatim>\<open>null\<close> has none, a primitive has the prototype of its
  wrapper. Every chain ends in \<^verbatim>\<open>Object.prototype\<close>.\<close>

fun prototype_of :: "jvalue \<Rightarrow> js_class option" where
  "prototype_of JNull = None"
| "prototype_of (JBool _) = Some BooleanClass"
| "prototype_of (JNum _) = Some NumberClass"
| "prototype_of (JStr _) = Some StringClass"
| "prototype_of (JArr _) = Some ArrayClass"
| "prototype_of (JObj _) = Some ObjectClass"

text \<open>The names under which each prototype holds a function of its own, besides
  \<^verbatim>\<open>constructor\<close>.\<close>

fun own_methods :: "js_class \<Rightarrow> string list" where
  "own_methods ObjectClass =
     [''__defineGetter__'', ''__defineSetter__'', ''__lookupGetter__'', ''__lookupSetter__'',
      ''hasOwnProperty'', ''isPrototypeOf'', ''propertyIsEnumerable'', ''toLocaleString'',
      ''toString'', ''valueOf'']"
| "own_methods ArrayClass =
     [''at'', ''concat'', ''copyWithin'', ''entries'', ''every'', ''fill'', ''filter'', ''find'',
      ''findIndex'', ''findLast'', ''findLastIndex'', ''flat'', ''flatMap'', ''forEach'',
      ''includes'', ''indexOf'', ''join'', ''keys'', ''lastIndexOf'', ''map'', ''pop'', ''push'',
      ''reduce'', ''reduceRight'', ''reverse'', ''shift'', ''slice'', ''some'', ''sort'',
      ''splice'', ''toLocaleString'', ''toReversed'', ''toSorted'', ''toSpliced'', ''toString'',
      ''unshift'', ''values'', ''with'']"
| "own_methods StringClass =
     [''anchor'', ''at'', ''big'', ''blink'', ''bold'', ''charAt'', ''charCodeAt'',
      ''codePointAt'', ''concat'', ''endsWith'', ''fixed'', ''fontcolor'', ''fontsize'',
      ''includes'', ''indexOf'', ''isWellFormed'', ''italics'', ''lastIndexOf'', ''link'',
      ''localeCompare'', ''match'', ''matchAll'', ''normalize'', ''padEnd'', ''padStart'',
      ''repeat'', ''replace'', ''replaceAll'', ''search'', ''slice'', ''small'', ''split'',
      ''startsWith'', ''strike'', ''sub'', ''substr'', ''substring'', ''sup'',
      ''toLocaleLowerCase'', ''toLocaleUpperCase'', ''toLowerCase'', ''toString'',
      ''toUpperCase'', ''toWellFormed'', ''trim'', ''trimEnd'', ''trimLeft'', ''trimRight'',
      ''trimStart'', ''valueOf'']"
| "own_methods NumberClass =
     [''toExponential'', ''toFixed'', ''toLocaleString'', ''toPrecision'', ''toString'',
      ''valueOf'']"
| "own_methods BooleanClass = [''toString'', ''valueOf'']"

text \<open>\<^verbatim>\<open>trimLeft\<close> and \<^verbatim>\<open>trimRight\<close> are second names of the functions
  \<^verbatim>\<open>trimStart\<close> and \<^verbatim>\<open>trimEnd\<close>.\<close>

definition method_name :: "js_class \<Rightarrow> string \<Rightarrow> string" where
  "method_name c name =
     (if c = StringClass \<and> name = ''trimLeft'' then ''trimStart''
      else if c = StringClass \<and> name = ''trimRight'' then ''trimEnd''
      else name)"

text \<open>What a value with prototype \<open>c\<close> inherits under a name that is not an own property:
  the member of its own prototype, else the member of \<^verbatim>\<open>Object.prototype\<close>. The
  accessor \<^verbatim>\<open>__proto__\<close> of \<^verbatim>\<open>Object.prototype\<close> returns the prototype of the
  receiver.\<close>

definition inherited :: "js_class \<Rightarrow> string \<Rightarrow> builtin option" where
  "inherited c name =
     (if name = ''constructor'' then Some (Constructor c)
      else if name \<in> set (own_methods c) then Some (Method c (method_name c name))
      else if name \<in> set (own_methods ObjectClass) then Some (Method ObjectClass name)
      else if name = ''__proto__'' then Some (Prototype c)
      else None)"

text \<open>\<^verbatim>\<open>v[name]\<close>; \<open>None\<close> is \<^verbatim>\<open>undefined\<close>. Reading a property of \<^verbatim>\<open>null\<close>
  throws.\<close>

definition js_get :: "jvalue \<Rightarrow> string \<Rightarrow> error + rvalue option" where
  "js_get v name =
     (case prototype_of v of
        None \<Rightarrow> Inl TypeError
      | Some c \<Rightarrow>
          (case own_property v name of
             Some x \<Rightarrow> Inr (Some (Data x))
           | None \<Rightarrow> Inr (map_option Builtin (inherited c name))))"

text \<open>\<^verbatim>\<open>name in v\<close>: own or inherited; the operator throws when \<open>v\<close> is not an
  object.\<close>

definition js_in :: "string \<Rightarrow> jvalue \<Rightarrow> error + bool" where
  "js_in name v =
     (case v of
        JObj kvs \<Rightarrow> Inr (own_property v name \<noteq> None \<or> inherited ObjectClass name \<noteq> None)
      | JArr xs \<Rightarrow> Inr (own_property v name \<noteq> None \<or> inherited ArrayClass name \<noteq> None)
      | _ \<Rightarrow> Inl TypeError)"

subsection \<open>Truthiness, \<^verbatim>\<open>||\<close> and \<^verbatim>\<open>for ... of\<close>\<close>

fun truthy :: "jvalue \<Rightarrow> bool" where
  "truthy JNull = False"
| "truthy (JBool b) = b"
| "truthy (JNum n) = (n \<noteq> 0)"
| "truthy (JStr s) = (s \<noteq> [])"
| "truthy _ = True"

text \<open>\<^verbatim>\<open>v || d\<close> for the result \<open>v\<close> of a property read (functions and prototype
  objects are truthy), and for the result of \<^verbatim>\<open>Map.get\<close>, which is an item of the
  indexed array or \<^verbatim>\<open>undefined\<close>.\<close>

definition or_else :: "rvalue option \<Rightarrow> rvalue \<Rightarrow> rvalue" where
  "or_else v d =
     (case v of
        None \<Rightarrow> d
      | Some (Data x) \<Rightarrow> if truthy x then Data x else d
      | Some (Builtin b) \<Rightarrow> Builtin b)"

definition item_or_else :: "jvalue option \<Rightarrow> jvalue \<Rightarrow> jvalue" where
  "item_or_else v d = (case v of None \<Rightarrow> d | Some x \<Rightarrow> if truthy x then x else d)"

text \<open>The items of \<^verbatim>\<open>for (const item of v)\<close>. Arrays and strings are iterable, and so
  are \<^verbatim>\<open>Array.prototype\<close> and \<^verbatim>\<open>String.prototype\<close>, both empty; nothing else a read
  can return is.\<close>

fun js_iter :: "rvalue \<Rightarrow> error + jvalue list" where
  "js_iter (Data (JArr xs)) = Inr xs"
| "js_iter (Data (JStr s)) = Inr (map (\<lambda>c. JStr [c]) s)"
| "js_iter (Builtin (Prototype ArrayClass)) = Inr []"
| "js_iter (Builtin (Prototype StringClass)) = Inr []"
| "js_iter _ = Inl TypeError"

section \<open>Canonical serialisation (both strategy modules carry the same copy)\<close>

lemma size_property_less:
  "(k, v) \<in> set kvs \<Longrightarrow> size v < Suc (size_list (size_prod (\<lambda>_. 0) size) kvs)"
  by (induction kvs) auto

function canonicalize :: "jvalue \<Rightarrow> string" where
  "canonicalize JNull = json_stringify JNull"
| "canonicalize (JBool b) = json_stringify (JBool b)"
| "canonicalize (JNum n) = json_stringify (JNum n)"
| "canonicalize (JStr s) = json_stringify (JStr s)"
| "canonicalize (JArr xs) = ''['' @ join '','' (sort (map canonicalize xs)) @ '']''"
| "canonicalize (JObj kvs) =
     ''{'' @ join '',''
        (map (\<lambda>k. quote_json_string k @ '':'' @
                (case map_of kvs k of Some v \<Rightarrow> canonicalize v | None \<Rightarrow> ''undefined''))
           (sort (object_keys (JObj kvs)))) @ ''}''"
  by pat_completeness auto
termination
  apply (relation "measure size")
    apply simp
   apply (simp add: less_Suc_eq_le size_list_estimation')
  apply (auto dest!: map_of_SomeD size_property_less)
  done

section \<open>Value equality of the entity strategy\<close>

text \<open>
  \<^verbatim>\<open>a === b\<close> compares primitives by kind and value. Arrays and objects are compared
  by reference, which a value does not carry: the model answers \<open>False\<close> for them (two
  objects read from two snapshots), and where both sides are one and the same object the
  canonical comparison that follows answers \<open>True\<close> as the source's first line does.
\<close>

definition strict_equals :: "jvalue \<Rightarrow> jvalue \<Rightarrow> bool" where
  "strict_equals a b = (case a of JArr _ \<Rightarrow> False | JObj _ \<Rightarrow> False | _ \<Rightarrow> a = b)"

definition valuesEqual :: "jvalue \<Rightarrow> jvalue \<Rightarrow> bool" where
  "valuesEqual a b =
     (if strict_equals a b then True
      else if a = JNull \<or> b = JNull then False
      else if typeof a \<noteq> typeof b then False
      else if typeof a = T_object then canonicalize a = canonicalize b
      else False)"

text \<open>
  \<^verbatim>\<open>diffProperties\<close> applies the function to the results of two property reads, which
  may be \<^verbatim>\<open>undefined\<close> or inherited. The same five lines, read for such arguments:
  a built-in function has type \<^verbatim>\<open>function\<close>, a prototype object type \<^verbatim>\<open>object\<close>;
  \<^verbatim>\<open>canonicalize\<close> of a prototype object finds \<^verbatim>\<open>Array.prototype\<close> to be an array
  without elements and every other prototype to be an object without enumerable keys, and
  \<^verbatim>\<open>JSON.stringify\<close> of a function is \<^verbatim>\<open>undefined\<close> (\<open>None\<close>).
\<close>

fun typeof_read :: "rvalue option \<Rightarrow> js_type" where
  "typeof_read None = T_undefined"
| "typeof_read (Some (Data v)) = typeof v"
| "typeof_read (Some (Builtin (Prototype c))) = T_object"
| "typeof_read (Some (Builtin (Constructor c))) = T_function"
| "typeof_read (Some (Builtin (Method c name))) = T_function"

fun canonicalize_read :: "rvalue option \<Rightarrow> string option" where
  "canonicalize_read None = None"
| "canonicalize_read (Some (Data v)) = Some (canonicalize v)"
| "canonicalize_read (Some (Builtin (Prototype c))) = Some (if c = ArrayClass then ''[]'' else ''{}'')"
| "canonicalize_read (Some (Builtin (Constructor c))) = None"
| "canonicalize_read (Some (Builtin (Method c name))) = None"

fun strict_equals_read :: "rvalue option \<Rightarrow> rvalue option \<Rightarrow> bool" where
  "strict_equals_read None None = True"
| "strict_equals_read (Some (Data a)) (Some (Data b)) = strict_equals a b"
| "strict_equals_read (Some (Builtin x)) (Some (Builtin y)) = (x = y)"
| "strict_equals_read _ _ = False"

definition valuesEqual_read :: "rvalue option \<Rightarrow> rvalue option \<Rightarrow> bool" where
  "valuesEqual_read a b =
     (if strict_equals_read a b then True
      else if a = Some (Data JNull) \<or> b = Some (Data JNull) then False
      else if typeof_read a \<noteq> typeof_read b then False
      else if typeof_read a = T_object then canonicalize_read a = canonicalize_read b
      else False)"

section \<open>JavaScript \<^verbatim>\<open>Map\<close> with string keys\<close>

text \<open>A \<^verbatim>\<open>Map\<close> iterates in the order in which its keys were first inserted;
  \<^verbatim>\<open>set\<close> on a key already present replaces the stored item and leaves the key where
  it stands.\<close>

fun map_set :: "string \<Rightarrow> 'v \<Rightarrow> (string \<times> 'v) list \<Rightarrow> (string \<times> 'v) list" where
  "map_set k v [] = [(k, v)]"
| "map_set k v (p # m) = (if fst p = k then (k, v) # m else p # map_set k v m)"

definition map_has :: "(string \<times> 'v) list \<Rightarrow> string \<Rightarrow> bool" where
  "map_has m k = (map_of m k \<noteq> None)"

section \<open>Flat strategy: multiset difference\<close>

record ms_entry =
  ms_count :: nat
  ms_value :: jvalue

type_synonym multiset_map = "(string \<times> ms_entry) list"

fun buildMultiset_loop :: "jvalue list \<Rightarrow> multiset_map \<Rightarrow> multiset_map" where
  "buildMultiset_loop [] m = m"
| "buildMultiset_loop (item # rest) m =
     (let key = canonicalize item in
      buildMultiset_loop rest
        (case map_of m key of
           Some e \<Rightarrow> map_set key (e\<lparr>ms_count := ms_count e + 1\<rparr>) m
         | None \<Rightarrow> map_set key \<lparr>ms_count = 1, ms_value = item\<rparr> m))"

definition buildMultiset :: "jvalue list \<Rightarrow> multiset_map" where
  "buildMultiset arr = buildMultiset_loop arr []"

text \<open>One pass of \<^verbatim>\<open>flatCompare\<close> over the entries of a multiset: every entry pushes
  \<^verbatim>\<open>count - otherCount\<close> copies of its item (none when the difference is not positive:
  the inner loop \<^verbatim>\<open>for (let i = 0; i < count - otherCount; i++)\<close> then runs no
  iteration, and subtraction on \<open>nat\<close> stops at zero as well).\<close>

fun push_surplus :: "multiset_map \<Rightarrow> multiset_map \<Rightarrow> jvalue list \<Rightarrow> jvalue list" where
  "push_surplus [] other out = out"
| "push_surplus ((key, e) # rest) other out =
     (let otherCount = (if map_has other key
                        then (case map_of other key of Some e' \<Rightarrow> ms_count e' | None \<Rightarrow> 0)
                        else 0)
      in push_surplus rest other (out @ replicate (ms_count e - otherCount) (ms_value e)))"

record flat_summary =
  fs_missing :: nat
  fs_extra :: nat

record flat_result =
  fr_missing :: "jvalue list"
  fr_extra :: "jvalue list"
  fr_summary :: flat_summary

definition flatCompare :: "jvalue list \<Rightarrow> jvalue list \<Rightarrow> flat_result" where
  "flatCompare savedArr currentArr =
     (let savedMultiset = buildMultiset savedArr;
          currentMultiset = buildMultiset currentArr;
          missing = push_surplus savedMultiset currentMultiset [];
          extra = push_surplus currentMultiset savedMultiset []
      in \<lparr>fr_missing = missing, fr_extra = extra,
          fr_summary = \<lparr>fs_missing = length missing, fs_extra = length extra\<rparr>\<rparr>)"

section \<open>Entity strategy: identity-based diff\<close>

type_synonym id_map = "(string \<times> jvalue) list"

fun indexById_loop :: "jvalue list \<Rightarrow> string \<Rightarrow> id_map \<Rightarrow> error + id_map" where
  "indexById_loop [] idField m = Inr m"
| "indexById_loop (item # rest) idField m =
     (case js_get item idField of
        Inl e \<Rightarrow> Inl e
      | Inr None \<Rightarrow> indexById_loop rest idField m
      | Inr (Some i) \<Rightarrow>
          if i \<noteq> Data JNull
          then (case js_String i of
                  Inl e \<Rightarrow> Inl e
                | Inr key \<Rightarrow> indexById_loop rest idField (map_set key item m))
          else indexById_loop rest idField m)"

definition indexById :: "jvalue list \<Rightarrow> string \<Rightarrow> error + id_map" where
  "indexById arr idField = indexById_loop arr idField []"

record property_diff =
  pd_property :: string
  pd_saved :: "rvalue option"
  pd_current :: "rvalue option"

text \<open>The loop of \<^verbatim>\<open>diffProperties\<close> over the sorted names. \<open>None\<close> is
  \<^verbatim>\<open>undefined\<close>.\<close>

fun diffProperties_loop ::
  "string list \<Rightarrow> jvalue \<Rightarrow> jvalue \<Rightarrow> string \<Rightarrow> string list \<Rightarrow> property_diff list
     \<Rightarrow> error + property_diff list" where
  "diffProperties_loop [] saved current idField excludeKeys diffs = Inr diffs"
| "diffProperties_loop (key # keys) saved current idField excludeKeys diffs =
     (if key = idField \<or> key \<in> set excludeKeys
      then diffProperties_loop keys saved current idField excludeKeys diffs
      else case js_in key saved of Inl e \<Rightarrow> Inl e | Inr inSaved \<Rightarrow>
           case js_in key current of Inl e \<Rightarrow> Inl e | Inr inCurrent \<Rightarrow>
           case js_get saved key of Inl e \<Rightarrow> Inl e | Inr sv \<Rightarrow>
           case js_get current key of Inl e \<Rightarrow> Inl e | Inr cv \<Rightarrow>
             if inSaved \<and> \<not> inCurrent then
               diffProperties_loop keys saved current idField excludeKeys
                 (diffs @ [\<lparr>pd_property = key, pd_saved = sv, pd_current = None\<rparr>])
             else if \<not> inSaved \<and> inCurrent then
               diffProperties_loop keys saved current idField excludeKeys
                 (diffs @ [\<lparr>pd_property = key, pd_saved = None, pd_current = cv\<rparr>])
             else if \<not> valuesEqual_read sv cv then
               diffProperties_loop keys saved current idField excludeKeys
                 (diffs @ [\<lparr>pd_property = key, pd_saved = sv, pd_current = cv\<rparr>])
             else diffProperties_loop keys saved current idField excludeKeys diffs)"

text \<open>\<^verbatim>\<open>Object.keys(null)\<close> throws; the \<^verbatim>\<open>Set\<close> keeps one copy of each name and the
  sort fixes the order.\<close>

definition diffProperties ::
  "jvalue \<Rightarrow> jvalue \<Rightarrow> string \<Rightarrow> string list \<Rightarrow> error + property_diff list" where
  "diffProperties saved current idField excludeKeys =
     (if saved = JNull \<or> current = JNull then Inl TypeError
      else diffProperties_loop (sort (remdups (object_keys saved @ object_keys current)))
             saved current idField excludeKeys [])"

record entity_ref =
  er_id :: string
  er_entity :: jvalue

record matched_entity =
  me_id :: string
  me_differences :: "property_diff list"

record entity_summary =
  es_missing :: nat
  es_extra :: nat
  es_changed :: nat
  es_inSync :: nat

record entity_result =
  res_missing :: "entity_ref list"
  res_extra :: "entity_ref list"
  res_matched :: "matched_entity list"
  res_summary :: entity_summary

text \<open>Phases 1a and 1b: the entries of one index whose id the other index lacks.\<close>

fun absent_from :: "id_map \<Rightarrow> id_map \<Rightarrow> entity_ref list \<Rightarrow> entity_ref list" where
  "absent_from [] other out = out"
| "absent_from ((i, entity) # rest) other out =
     (if \<not> map_has other i
      then absent_from rest other (out @ [\<lparr>er_id = i, er_entity = entity\<rparr>])
      else absent_from rest other out)"

text \<open>Phase 2: the state is the \<^verbatim>\<open>matched\<close> list and the two counters.\<close>

fun phase2_loop ::
  "id_map \<Rightarrow> id_map \<Rightarrow> string \<Rightarrow> string list \<Rightarrow> matched_entity list \<times> nat \<times> nat
     \<Rightarrow> error + matched_entity list \<times> nat \<times> nat" where
  "phase2_loop [] currentMap idField excludeKeys st = Inr st"
| "phase2_loop ((i, savedEntity) # rest) currentMap idField excludeKeys (matched, changedCount, inSyncCount) =
     (if \<not> map_has currentMap i
      then phase2_loop rest currentMap idField excludeKeys (matched, changedCount, inSyncCount)
      else case map_of currentMap i of
             None \<Rightarrow> Inl TypeError
           | Some currentEntity \<Rightarrow>
               (case diffProperties savedEntity currentEntity idField excludeKeys of
                  Inl e \<Rightarrow> Inl e
                | Inr differences \<Rightarrow>
                    phase2_loop rest currentMap idField excludeKeys
                      (matched @ [\<lparr>me_id = i, me_differences = differences\<rparr>],
                       (if length differences > 0 then changedCount + 1 else changedCount),
                       (if length differences > 0 then inSyncCount else inSyncCount + 1))))"

definition entityCompare ::
  "jvalue list \<Rightarrow> jvalue list \<Rightarrow> string \<Rightarrow> string list \<Rightarrow> error + entity_result" where
  "entityCompare savedArr currentArr idField excludeKeys =
     (case indexById savedArr idField of Inl e \<Rightarrow> Inl e | Inr savedMap \<Rightarrow>
      case indexById currentArr idField of Inl e \<Rightarrow> Inl e | Inr currentMap \<Rightarrow>
        let missing = absent_from savedMap currentMap [];
            extra = absent_from currentMap savedMap []
        in case phase2_loop savedMap currentMap idField excludeKeys ([], 0, 0) of
             Inl e \<Rightarrow> Inl e
           | Inr (matched, changedCount, inSyncCount) \<Rightarrow>
               Inr \<lparr>res_missing = missing, res_extra = extra, res_matched = matched,
                    res_summary = \<lparr>es_missing = length missing, es_extra = length extra,
                                   es_changed = changedCount, es_inSync = inSyncCount\<rparr>\<rparr>)"

section \<open>The registry of entity types\<close>

text \<open>A registry entry. \<^verbatim>\<open>idField\<close> is optional in the source's type; absent
  \<^verbatim>\<open>children\<close> are the empty list, since every use tests
  \<^verbatim>\<open>config.children && config.children.length > 0\<close> first.\<close>

datatype strategy = Entity | Flat

datatype config =
  Config (cfg_key: string) (cfg_label: string) (cfg_strategy: strategy)
    (cfg_idField: "string option") (cfg_children: "config list")

definition registry :: "config list" where
  "registry =
    [Config ''namespaceConfig'' ''Namespace Configuration'' Entity (Some ''id'') [],
     Config ''tasks'' ''Scheduled Tasks'' Entity (Some ''id'') [],
     Config ''webApplications'' ''Web Applications'' Entity (Some ''id'') [],
     Config ''sqlConnections'' ''SQL Gateway Connections'' Entity (Some ''id'') [],
     Config ''users'' ''Users'' Entity (Some ''id'') [],
     Config ''roles'' ''Roles'' Entity (Some ''id'') [],
     Config ''resources'' ''Resources'' Entity (Some ''id'') [],
     Config ''ssl'' ''Ssl Configurations'' Entity (Some ''id'') [],
     Config ''namespaces'' ''Namespaces'' Entity (Some ''id'')
       [Config ''classes'' ''Classes'' Entity (Some ''id'') [],
        Config ''globals'' ''Globals'' Entity (Some ''id'') [],
        Config ''credentials'' ''Credentials'' Entity (Some ''id'') [],
        Config ''productionItems'' ''Production Items'' Entity (Some ''id'') [],
        Config ''lookups'' ''Lookup Tables'' Flat None []]]"

section \<open>The comparison engine\<close>

datatype diff_section =
    EntitySection (sec_key: string) (sec_label: string)
      (sec_summary: entity_summary)
      (sec_missing: "entity_ref list") (sec_extra: "entity_ref list")
      (sec_matched: "matched_entity list")
      (sec_childSections: "diff_section list option")
      (sec_totalDifferences: nat)
      (sec_parentId: "string option") (sec_parentLabel: "string option")
  | FlatSection (sec_key: string) (sec_label: string)
      (sec_flat_summary: flat_summary)
      (sec_flat_missing: "jvalue list") (sec_flat_extra: "jvalue list")
      (sec_totalDifferences: nat)
      (sec_parentId: "string option") (sec_parentLabel: "string option")

record report =
  report_timestamp :: string
  report_totalDifferences :: nat
  report_sections :: "diff_section list"

text \<open>\<^verbatim>\<open>childSection.parentId = parentId; childSection.parentLabel = ...\<close>\<close>

fun set_parent :: "string \<Rightarrow> string \<Rightarrow> diff_section \<Rightarrow> diff_section" where
  "set_parent pid plabel (EntitySection k l sm mi ex ma cs t _ _) =
     EntitySection k l sm mi ex ma cs t (Some pid) (Some plabel)"
| "set_parent pid plabel (FlatSection k l sm mi ex t _ _) =
     FlatSection k l sm mi ex t (Some pid) (Some plabel)"

definition indexBy :: "jvalue list \<Rightarrow> string \<Rightarrow> error + id_map" where
  "indexBy arr field = indexById_loop arr field []"

definition getChildKeys :: "config \<Rightarrow> string list" where
  "getChildKeys cfg = (if cfg_children cfg = [] then [] else map cfg_key (cfg_children cfg))"

text \<open>A call that leaves \<^verbatim>\<open>idField\<close> undefined takes the default \<^verbatim>\<open>'id'\<close> of
  \<^verbatim>\<open>entityCompare\<close>; \<^verbatim>\<open>indexBy\<close> has no default, and \<^verbatim>\<open>item[undefined]\<close>
  reads the property named \<^verbatim>\<open>undefined\<close>.\<close>

definition idField_or_default :: "string option \<Rightarrow> string" where
  "idField_or_default f = (case f of Some x \<Rightarrow> x | None \<Rightarrow> ''id'')"

definition idField_as_key :: "string option \<Rightarrow> string" where
  "idField_as_key f = (case f of Some x \<Rightarrow> x | None \<Rightarrow> ''undefined'')"

definition buildFlatSection :: "config \<Rightarrow> rvalue \<Rightarrow> rvalue \<Rightarrow> error + diff_section" where
  "buildFlatSection cfg savedArr currentArr =
     (case js_iter savedArr of Inl e \<Rightarrow> Inl e | Inr s \<Rightarrow>
      case js_iter currentArr of Inl e \<Rightarrow> Inl e | Inr c \<Rightarrow>
        let result = flatCompare s c;
            sectionDiffs = fs_missing (fr_summary result) + fs_extra (fr_summary result)
        in Inr (FlatSection (cfg_key cfg) (cfg_label cfg) (fr_summary result)
                  (fr_missing result) (fr_extra result) sectionDiffs None None))"

text \<open>
  \<^verbatim>\<open>compareSection\<close> and \<^verbatim>\<open>compareChildren\<close> call each other. The two nested
  loops of \<^verbatim>\<open>compareChildren\<close> are \<open>compareChildren_parents\<close> (over the matched
  parents) and \<open>compareChildren_configs\<close> (over the child descriptors); their state is
  the list \<^verbatim>\<open>sections\<close> and the counter \<^verbatim>\<open>totalChildDifferences\<close>.
\<close>

function (sequential)
    compareSection :: "config \<Rightarrow> rvalue \<Rightarrow> rvalue \<Rightarrow> error + diff_section"
and compareChildren ::
      "config \<Rightarrow> entity_result \<Rightarrow> rvalue \<Rightarrow> rvalue \<Rightarrow> error + diff_section list \<times> nat"
and compareChildren_parents ::
      "config list \<Rightarrow> string \<Rightarrow> matched_entity list \<Rightarrow> id_map \<Rightarrow> id_map
         \<Rightarrow> diff_section list \<times> nat \<Rightarrow> error + diff_section list \<times> nat"
and compareChildren_configs ::
      "config list \<Rightarrow> string \<Rightarrow> string \<Rightarrow> jvalue \<Rightarrow> jvalue
         \<Rightarrow> diff_section list \<times> nat \<Rightarrow> error + diff_section list \<times> nat"
where
  "compareSection (Config key label strat idField children) savedArr currentArr =
     (if strat = Flat
      then buildFlatSection (Config key label strat idField children) savedArr currentArr
      else
        case js_iter savedArr of Inl e \<Rightarrow> Inl e | Inr s \<Rightarrow>
        case js_iter currentArr of Inl e \<Rightarrow> Inl e | Inr c \<Rightarrow>
        case entityCompare s c (idField_or_default idField)
               (getChildKeys (Config key label strat idField children)) of
          Inl e \<Rightarrow> Inl e
        | Inr result \<Rightarrow>
           (case (if children \<noteq> []
                  then (case compareChildren (Config key label strat idField children)
                               result savedArr currentArr of
                          Inl e \<Rightarrow> Inl e
                        | Inr r \<Rightarrow> Inr (Some r))
                  else Inr None) of
              Inl e \<Rightarrow> Inl e
            | Inr childResult \<Rightarrow>
                let sectionDiffs =
                      es_missing (res_summary result) + es_extra (res_summary result)
                      + es_changed (res_summary result)
                      + (case childResult of Some r \<Rightarrow> snd r | None \<Rightarrow> 0)
                in Inr (EntitySection key label (res_summary result)
                          (res_missing result) (res_extra result) (res_matched result)
                          (case childResult of Some r \<Rightarrow> Some (fst r) | None \<Rightarrow> None)
                          sectionDiffs None None)))"
| "compareChildren (Config key label strat idField children) parentResult savedArr currentArr =
     (case js_iter savedArr of Inl e \<Rightarrow> Inl e | Inr s \<Rightarrow>
      case indexBy s (idField_as_key idField) of Inl e \<Rightarrow> Inl e | Inr savedIndex \<Rightarrow>
      case js_iter currentArr of Inl e \<Rightarrow> Inl e | Inr c \<Rightarrow>
      case indexBy c (idField_as_key idField) of Inl e \<Rightarrow> Inl e | Inr currentIndex \<Rightarrow>
        compareChildren_parents children label (res_matched parentResult)
          savedIndex currentIndex ([], 0))"
| "compareChildren_parents children label [] savedIndex currentIndex st = Inr st"
| "compareChildren_parents children label (match # rest) savedIndex currentIndex st =
     (let parentId = me_id match;
          savedParent = item_or_else (map_of savedIndex parentId) (JObj []);
          currentParent = item_or_else (map_of currentIndex parentId) (JObj [])
      in case compareChildren_configs children label parentId savedParent currentParent st of
           Inl e \<Rightarrow> Inl e
         | Inr st' \<Rightarrow> compareChildren_parents children label rest savedIndex currentIndex st')"
| "compareChildren_configs [] label parentId savedParent currentParent st = Inr st"
| "compareChildren_configs (childConfig # rest) label parentId savedParent currentParent
       (sections, totalChildDifferences) =
     (case js_get savedParent (cfg_key childConfig) of Inl e \<Rightarrow> Inl e | Inr sv \<Rightarrow>
      case js_get currentParent (cfg_key childConfig) of Inl e \<Rightarrow> Inl e | Inr cv \<Rightarrow>
      case compareSection childConfig (or_else sv (Data (JArr []))) (or_else cv (Data (JArr []))) of
        Inl e \<Rightarrow> Inl e
      | Inr childSection \<Rightarrow>
          compareChildren_configs rest label parentId savedParent currentParent
            (sections @ [set_parent parentId label childSection],
             totalChildDifferences + sec_totalDifferences childSection))"
  by pat_completeness auto
termination
  by (relation "inv_image (less_than <*lex*> less_than <*lex*> less_than)
        (\<lambda>x. case x of
            Inl (Inl (cfg, _)) \<Rightarrow> (size cfg, 3::nat, 0::nat)
          | Inl (Inr (cfg, _)) \<Rightarrow> (size cfg, 2, 0)
          | Inr (Inl (chs, _, ms, _)) \<Rightarrow> (size_list size chs, 1, length ms)
          | Inr (Inr (chs, _)) \<Rightarrow> (size_list size chs, 0, 0))")
    auto

text \<open>The loop of \<^verbatim>\<open>compare\<close> over the registry; its state is \<^verbatim>\<open>sections\<close> and
  \<^verbatim>\<open>totalDifferences\<close>.\<close>

fun compare_loop ::
  "config list \<Rightarrow> jvalue \<Rightarrow> jvalue \<Rightarrow> diff_section list \<times> nat \<Rightarrow> error + diff_section list \<times> nat" where
  "compare_loop [] saved current st = Inr st"
| "compare_loop (cfg # rest) saved current (sections, totalDifferences) =
     (case js_get saved (cfg_key cfg) of Inl e \<Rightarrow> Inl e | Inr sv \<Rightarrow>
      case js_get current (cfg_key cfg) of Inl e \<Rightarrow> Inl e | Inr cv \<Rightarrow>
      case compareSection cfg (or_else sv (Data (JArr []))) (or_else cv (Data (JArr []))) of
        Inl e \<Rightarrow> Inl e
      | Inr sec \<Rightarrow>
          compare_loop rest saved current (sections @ [sec], totalDifferences + sec_totalDifferences sec))"

text \<open>\<open>now\<close> stands for the clock read by \<^verbatim>\<open>new Date().toISOString()\<close>.\<close>

definition compare :: "string \<Rightarrow> jvalue \<Rightarrow> jvalue \<Rightarrow> error + report" where
  "compare now saved current =
     (case compare_loop registry saved current ([], 0) of
        Inl e \<Rightarrow> Inl e
      | Inr (sections, totalDifferences) \<Rightarrow>
          Inr \<lparr>report_timestamp = now, report_totalDifferences = totalDifferences,
               report_sections = sections\<rparr>)"

section \<open>Notions used to state and prove the properties\<close>

subsection \<open>Reading back what the printers wrote\<close>

definition is_digit :: "char \<Rightarrow> bool" where
  "is_digit c \<longleftrightarrow> 48 \<le> (of_char c :: nat) \<and> (of_char c :: nat) < 58"

definition digits_val :: "string \<Rightarrow> nat" where
  "digits_val s = foldl (\<lambda>a c. 10 * a + (of_char c - 48)) 0 s"

definition hex_val :: "char \<Rightarrow> nat" where
  "hex_val c = (if (of_char c :: nat) < 58 then of_char c - 48 else of_char c - 87)"

text \<open>The first character of a quoted string, decoded, and the rest of the input.\<close>

fun unquote_char :: "string \<Rightarrow> char \<times> string" where
  "unquote_char (b # x # r) =
     (if b = CHR 0x5C then
        (if x = CHR ''b'' then (CHR 0x08, r)
         else if x = CHR ''t'' then (CHR 0x09, r)
         else if x = CHR ''n'' then (CHR 0x0A, r)
         else if x = CHR ''f'' then (CHR 0x0C, r)
         else if x = CHR ''r'' then (CHR 0x0D, r)
         else if x = CHR ''u'' then
           (char_of (16 * hex_val (r ! 2) + hex_val (r ! 3)), drop 4 r)
         else (x, r))
      else (b, x # r))"
| "unquote_char [b] = (b, [])"
| "unquote_char [] = (CHR 0x00, [])"

definition number_chars :: "char set" where
  "number_chars = {c. c = CHR ''-'' \<or> is_digit c}"

text \<open>The characters a canonical string can start with, by the kind of the value.\<close>

fun lead_chars :: "jvalue \<Rightarrow> char set" where
  "lead_chars JNull = {CHR ''n''}"
| "lead_chars (JBool b) = {CHR ''t'', CHR ''f''}"
| "lead_chars (JNum n) = number_chars"
| "lead_chars (JStr s) = {CHR 0x22}"
| "lead_chars (JArr xs) = {CHR ''[''}"
| "lead_chars (JObj kvs) = {CHR ''{''}"

subsection \<open>Reordering inside a value\<close>

text \<open>\<open>reordered a b\<close>: \<open>b\<close> is \<open>a\<close> with the elements of some of its arrays permuted
  and the properties of some of its objects listed in another order, at any depth.\<close>

inductive reordered :: "jvalue \<Rightarrow> jvalue \<Rightarrow> bool" where
  same: "reordered v v"
| elements:
    "list_all2 reordered xs ys \<Longrightarrow> mset ys = mset zs \<Longrightarrow> reordered (JArr xs) (JArr zs)"
| properties:
    "list_all2 (\<lambda>p q. fst p = fst q \<and> reordered (snd p) (snd q)) kvs kvs' \<Longrightarrow>
     mset kvs' = mset kvs'' \<Longrightarrow> distinct (map fst kvs) \<Longrightarrow>
     reordered (JObj kvs) (JObj kvs'')"

subsection \<open>Records, their ids, and the order of a \<^verbatim>\<open>Map\<close>\<close>

text \<open>A record is an object. \<open>id_of idField item\<close> is the key under which
  \<^verbatim>\<open>indexById\<close> files an item: the stringified \<^verbatim>\<open>item[idField]\<close>, when that is
  neither \<^verbatim>\<open>undefined\<close> nor \<^verbatim>\<open>null\<close>. \<open>id_prints idField item\<close>: the conversion
  of \<^verbatim>\<open>item[idField]\<close> to a string does not throw (a string, a number or a boolean
  always converts; an object with an own property \<^verbatim>\<open>toString\<close> does not).\<close>

fun is_record :: "jvalue \<Rightarrow> bool" where
  "is_record (JObj kvs) = True"
| "is_record _ = False"

definition id_of :: "string \<Rightarrow> jvalue \<Rightarrow> string option" where
  "id_of idField item =
     (case js_get item idField of
        Inr (Some v) \<Rightarrow>
          if v \<noteq> Data JNull
          then (case js_String v of Inr key \<Rightarrow> Some key | Inl _ \<Rightarrow> None)
          else None
      | _ \<Rightarrow> None)"

definition id_prints :: "string \<Rightarrow> jvalue \<Rightarrow> bool" where
  "id_prints idField item =
     (case js_get item idField of
        Inr (Some v) \<Rightarrow> (case js_String v of Inr _ \<Rightarrow> True | Inl _ \<Rightarrow> False)
      | _ \<Rightarrow> True)"

text \<open>The items of an array that carry an id, each with its id, in array order.\<close>

definition keyed :: "string \<Rightarrow> jvalue list \<Rightarrow> (string \<times> jvalue) list" where
  "keyed idField arr =
     List.map_filter (\<lambda>item. map_option (\<lambda>i. (i, item)) (id_of idField item)) arr"

definition ids_of :: "string \<Rightarrow> jvalue list \<Rightarrow> string list" where
  "ids_of idField arr = map fst (keyed idField arr)"

text \<open>The last item of an array filed under an id.\<close>

definition last_with_id :: "string \<Rightarrow> jvalue list \<Rightarrow> string \<Rightarrow> jvalue option" where
  "last_with_id idField arr i = find (\<lambda>item. id_of idField item = Some i) (rev arr)"

text \<open>Each element once, at the place where it first occurs.\<close>

fun first_occurrences :: "'a list \<Rightarrow> 'a list" where
  "first_occurrences [] = []"
| "first_occurrences (x # xs) = x # first_occurrences (filter (\<lambda>y. y \<noteq> x) xs)"

text \<open>Position of the first and of the last occurrence of an element of a list.\<close>

definition first_position :: "'a list \<Rightarrow> 'a \<Rightarrow> nat" where
  "first_position xs x = length (takeWhile (\<lambda>y. y \<noteq> x) xs)"

definition last_position :: "'a list \<Rightarrow> 'a \<Rightarrow> nat" where
  "last_position xs x = length xs - 1 - first_position (rev xs) x"

text \<open>An array without the items that a later item with the same id overwrites.\<close>

fun keep_last :: "string \<Rightarrow> jvalue list \<Rightarrow> jvalue list" where
  "keep_last idField [] = []"
| "keep_last idField (item # rest) =
     (if id_of idField item \<noteq> None \<and> id_of idField item \<in> id_of idField ` set rest
      then keep_last idField rest
      else item # keep_last idField rest)"

text \<open>A record none of whose property names is a name that \<^verbatim>\<open>Object.prototype\<close>
  holds.\<close>

definition plain_record :: "jvalue \<Rightarrow> bool" where
  "plain_record item =
     (case item of
        JObj kvs \<Rightarrow> list_all (\<lambda>k. inherited ObjectClass k = None) (map fst kvs)
      | _ \<Rightarrow> False)"

subsection \<open>The property diff, in the words of the specification\<close>

text \<open>For one property name: present on one side only, a difference with the other side
  absent; present on both, a difference when the canonical strings differ.\<close>

definition property_difference ::
  "(string \<times> jvalue) list \<Rightarrow> (string \<times> jvalue) list \<Rightarrow> string \<Rightarrow> property_diff option" where
  "property_difference s c k =
     (case (map_of s k, map_of c k) of
        (Some a, None) \<Rightarrow> Some \<lparr>pd_property = k, pd_saved = Some (Data a), pd_current = None\<rparr>
      | (None, Some b) \<Rightarrow> Some \<lparr>pd_property = k, pd_saved = None, pd_current = Some (Data b)\<rparr>
      | (Some a, Some b) \<Rightarrow>
          if canonicalize a = canonicalize b then None
          else Some \<lparr>pd_property = k, pd_saved = Some (Data a), pd_current = Some (Data b)\<rparr>
      | (None, None) \<Rightarrow> None)"

text \<open>The union of the property names without the id field and the excluded names, in
  sorted order, each name giving at most one difference.\<close>

definition differences_spec ::
  "(string \<times> jvalue) list \<Rightarrow> (string \<times> jvalue) list \<Rightarrow> string \<Rightarrow> string list
     \<Rightarrow> property_diff list" where
  "differences_spec s c idField excludeKeys =
     List.map_filter (property_difference s c)
       (filter (\<lambda>k. k \<noteq> idField \<and> k \<notin> set excludeKeys)
          (sorted_list_of_set (set (map fst s) \<union> set (map fst c))))"

subsection \<open>The index and the result of the entity strategy as functions\<close>

text \<open>The \<^verbatim>\<open>Map\<close> that a run of \<^verbatim>\<open>map.set\<close> over a list of pairs builds.\<close>

definition index_of_pairs ::
  "(string \<times> 'v) list \<Rightarrow> (string \<times> 'v) list \<Rightarrow> (string \<times> 'v) list" where
  "index_of_pairs m kvs = foldl (\<lambda>m p. map_set (fst p) (snd p) m) m kvs"

definition index_of :: "string \<Rightarrow> jvalue list \<Rightarrow> id_map" where
  "index_of idField arr = index_of_pairs [] (keyed idField arr)"

definition entity_ref_of :: "string \<times> jvalue \<Rightarrow> entity_ref" where
  "entity_ref_of p = \<lparr>er_id = fst p, er_entity = snd p\<rparr>"

definition match_entry ::
  "id_map \<Rightarrow> string \<Rightarrow> string list \<Rightarrow> string \<times> jvalue \<Rightarrow> matched_entity" where
  "match_entry currentMap idField excludeKeys p =
     \<lparr>me_id = fst p,
      me_differences =
        (case map_of currentMap (fst p) of
           Some currentEntity \<Rightarrow>
             (case diffProperties (snd p) currentEntity idField excludeKeys of
                Inr d \<Rightarrow> d | Inl _ \<Rightarrow> [])
         | None \<Rightarrow> [])\<rparr>"

definition diff_ok :: "id_map \<Rightarrow> string \<Rightarrow> string list \<Rightarrow> string \<times> jvalue \<Rightarrow> bool" where
  "diff_ok currentMap idField excludeKeys p =
     (case map_of currentMap (fst p) of
        Some currentEntity \<Rightarrow>
          (case diffProperties (snd p) currentEntity idField excludeKeys of
             Inr _ \<Rightarrow> True | Inl _ \<Rightarrow> False)
      | None \<Rightarrow> True)"

definition entity_result_of ::
  "id_map \<Rightarrow> id_map \<Rightarrow> string \<Rightarrow> string list \<Rightarrow> entity_result" where
  "entity_result_of savedMap currentMap idField excludeKeys =
     (let missing = map entity_ref_of (filter (\<lambda>p. \<not> map_has currentMap (fst p)) savedMap);
          extra = map entity_ref_of (filter (\<lambda>p. \<not> map_has savedMap (fst p)) currentMap);
          matched = map (match_entry currentMap idField excludeKeys)
                      (filter (\<lambda>p. map_has currentMap (fst p)) savedMap)
      in \<lparr>res_missing = missing, res_extra = extra, res_matched = matched,
          res_summary =
            \<lparr>es_missing = length missing, es_extra = length extra,
             es_changed = length (filter (\<lambda>e. me_differences e \<noteq> []) matched),
             es_inSync = length (filter (\<lambda>e. me_differences e = []) matched)\<rparr>\<rparr>)"

subsection \<open>Sample snapshots used to instantiate the theorems\<close>

definition sample_saved :: "jvalue list" where
  "sample_saved =
     [JObj [(''id'', JStr ''a''), (''n'', JNum 1)],
      JObj [(''id'', JStr ''b''), (''note'', JStr ''hi''), (''gone'', JNull)],
      JObj [(''n'', JNum 5)],
      JObj [(''id'', JNull), (''n'', JNum 6)]]"

definition sample_current :: "jvalue list" where
  "sample_current =
     [JObj [(''tags'', JArr [JNum 2, JNum 1]), (''id'', JStr ''b''), (''note'', JStr ''ho'')],
      JObj [(''id'', JStr ''c'')],
      JObj [(''x'', JNum 1)]]"

definition sample_result :: entity_result where
  "sample_result =
     \<lparr>res_missing = [\<lparr>er_id = ''a'', er_entity = JObj [(''id'', JStr ''a''), (''n'', JNum 1)]\<rparr>],
      res_extra = [\<lparr>er_id = ''c'', er_entity = JObj [(''id'', JStr ''c'')]\<rparr>],
      res_matched =
        [\<lparr>me_id = ''b'',
          me_differences =
            [\<lparr>pd_property = ''gone'', pd_saved = Some (Data JNull), pd_current = None\<rparr>,
             \<lparr>pd_property = ''note'', pd_saved = Some (Data (JStr ''hi'')),
              pd_current = Some (Data (JStr ''ho''))\<rparr>,
             \<lparr>pd_property = ''tags'', pd_saved = None,
              pd_current = Some (Data (JArr [JNum 2, JNum 1]))\<rparr>]\<rparr>],
      res_summary = \<lparr>es_missing = 1, es_extra = 1, es_changed = 1, es_inSync = 0\<rparr>\<rparr>"

text \<open>An array in which the id \<^verbatim>\<open>1\<close> occurs twice, around the id \<^verbatim>\<open>2\<close>.\<close>

definition duplicate_saved :: "jvalue list" where
  "duplicate_saved =
     [JObj [(''id'', JNum 1), (''a'', JNum 1)],
      JObj [(''id'', JNum 2)],
      JObj [(''id'', JNum 1), (''a'', JNum 2)]]"

definition duplicate_result :: entity_result where
  "duplicate_result =
     \<lparr>res_missing =
        [\<lparr>er_id = ''1'', er_entity = JObj [(''id'', JNum 1), (''a'', JNum 2)]\<rparr>,
         \<lparr>er_id = ''2'', er_entity = JObj [(''id'', JNum 2)]\<rparr>],
      res_extra = [], res_matched = [],
      res_summary = \<lparr>es_missing = 2, es_extra = 0, es_changed = 0, es_inSync = 0\<rparr>\<rparr>"

definition duplicate_current :: "jvalue list" where
  "duplicate_current = [JObj [(''id'', JStr ''1''), (''a'', JNum 2)]]"

definition duplicate_matched_result :: entity_result where
  "duplicate_matched_result =
     \<lparr>res_missing = [\<lparr>er_id = ''2'', er_entity = JObj [(''id'', JNum 2)]\<rparr>],
      res_extra = [],
      res_matched = [\<lparr>me_id = ''1'', me_differences = []\<rparr>],
      res_summary = \<lparr>es_missing = 1, es_extra = 0, es_changed = 0, es_inSync = 1\<rparr>\<rparr>"

subsection \<open>Counting canonical keys\<close>

text \<open>How often a canonical key occurs in an array, and the first item that carries it
  (the item the multiset keeps for the key).\<close>

definition key_count :: "jvalue list \<Rightarrow> string \<Rightarrow> nat" where
  "key_count arr k = count_list (map canonicalize arr) k"

definition representative :: "jvalue list \<Rightarrow> string \<Rightarrow> jvalue" where
  "representative arr k =
     (case find (\<lambda>item. canonicalize item = k) arr of Some item \<Rightarrow> item | None \<Rightarrow> JNull)"

text \<open>One step of \<^verbatim>\<open>buildMultiset\<close>, and the copies one entry of a multiset contributes,
  given the multiset of the other side.\<close>

definition ms_step :: "multiset_map \<Rightarrow> jvalue \<Rightarrow> multiset_map" where
  "ms_step m item =
     (case map_of m (canonicalize item) of
        Some e \<Rightarrow> map_set (canonicalize item) (e\<lparr>ms_count := ms_count e + 1\<rparr>) m
      | None \<Rightarrow> map_set (canonicalize item) \<lparr>ms_count = 1, ms_value = item\<rparr> m)"

definition surplus_of :: "multiset_map \<Rightarrow> string \<times> ms_entry \<Rightarrow> jvalue list" where
  "surplus_of other p =
     replicate (ms_count (snd p)
                 - (case map_of other (fst p) of Some e \<Rightarrow> ms_count e | None \<Rightarrow> 0))
       (ms_value (snd p))"

definition sample_lookups :: "jvalue list" where
  "sample_lookups =
     [JObj [(''k'', JStr ''a''), (''v'', JNum 1)],
      JObj [(''k'', JStr ''b''), (''v'', JNum 2)],
      JObj [(''v'', JNum 1), (''k'', JStr ''a'')]]"

definition sample_lookups_current :: "jvalue list" where
  "sample_lookups_current =
     [JObj [(''k'', JStr ''a''), (''v'', JNum 1)],
      JObj [(''k'', JStr ''c'')],
      JObj [(''k'', JStr ''c'')]]"

definition sample_key_a :: string where
  "sample_key_a = canonicalize (JObj [(''k'', JStr ''a''), (''v'', JNum 1)])"

definition sample_key_c :: string where
  "sample_key_c = canonicalize (JObj [(''k'', JStr ''c'')])"

subsection \<open>Totals of a section\<close>

text \<open>The differences a section counts for itself, and its child sections (none when the
  field is \<^verbatim>\<open>null\<close> or, for a flat section, absent).\<close>

fun direct_differences :: "diff_section \<Rightarrow> nat" where
  "direct_differences (EntitySection k l sm mi ex ma cs t pi pl) =
     length mi + length ex + length (filter (\<lambda>m. me_differences m \<noteq> []) ma)"
| "direct_differences (FlatSection k l sm mi ex t pi pl) = length mi + length ex"

fun child_sections :: "diff_section \<Rightarrow> diff_section list" where
  "child_sections (EntitySection k l sm mi ex ma cs t pi pl) =
     (case cs of Some secs \<Rightarrow> secs | None \<Rightarrow> [])"
| "child_sections (FlatSection k l sm mi ex t pi pl) = []"

text \<open>The total of a section is its direct count plus the totals of its child sections,
  and the same holds in every child section, at any depth.\<close>

fun totals_consistent :: "diff_section \<Rightarrow> bool" where
  "totals_consistent (EntitySection k l sm mi ex ma cs t pi pl) =
     (t = length mi + length ex + length (filter (\<lambda>m. me_differences m \<noteq> []) ma)
          + (case cs of Some secs \<Rightarrow> sum_list (map sec_totalDifferences secs) | None \<Rightarrow> 0)
      \<and> es_missing sm = length mi \<and> es_extra sm = length ex
      \<and> es_changed sm = length (filter (\<lambda>m. me_differences m \<noteq> []) ma)
      \<and> (case cs of Some secs \<Rightarrow> list_all totals_consistent secs | None \<Rightarrow> True))"
| "totals_consistent (FlatSection k l sm mi ex t pi pl) =
     (t = length mi + length ex \<and> fs_missing sm = length mi \<and> fs_extra sm = length ex)"

subsection \<open>Well-formed snapshots\<close>

text \<open>The keys of the registry are names of collections such as \<^verbatim>\<open>users\<close> or
  \<^verbatim>\<open>classes\<close>: none of them, at any depth, is a name that \<^verbatim>\<open>Object.prototype\<close>
  holds, so that reading a key from a record that does not own it gives
  \<^verbatim>\<open>undefined\<close>.\<close>

fun plain_keys :: "config \<Rightarrow> bool" where
  "plain_keys (Config key label strat idField children) =
     (inherited ObjectClass key = None \<and> list_all plain_keys children)"

text \<open>A collection for a registry entry is an array of records. Under an entity entry
  the id of each record converts to a string. In each record, the property named by a
  child entry, when present, is a collection for that child entry. A snapshot root is an
  object in which every registry key, when present, holds a collection for its entry.\<close>

definition ids_print :: "strategy \<Rightarrow> string option \<Rightarrow> jvalue \<Rightarrow> bool" where
  "ids_print strat idField item =
     (strat = Flat \<or> id_prints (idField_or_default idField) item
                     \<and> id_prints (idField_as_key idField) item)"

fun wf_collection :: "config \<Rightarrow> jvalue \<Rightarrow> bool" where
  "wf_collection (Config key label strat idField children) v =
     (case v of
        JArr items \<Rightarrow>
          list_all (\<lambda>item.
            case item of
              JObj kvs \<Rightarrow>
                ids_print strat idField item
                \<and> list_all (\<lambda>ch. case map_of kvs (cfg_key ch) of
                                  None \<Rightarrow> True
                                | Some v' \<Rightarrow> wf_collection ch v') children
            | _ \<Rightarrow> False) items
      | _ \<Rightarrow> False)"

definition wf_snapshot_for :: "config list \<Rightarrow> jvalue \<Rightarrow> bool" where
  "wf_snapshot_for cfgs root =
     (case root of
        JObj kvs \<Rightarrow>
          list_all (\<lambda>cfg. case map_of kvs (cfg_key cfg) of
                             None \<Rightarrow> True
                           | Some v \<Rightarrow> wf_collection cfg v) cfgs
      | _ \<Rightarrow> False)"

definition wf_snapshot :: "jvalue \<Rightarrow> bool" where
  "wf_snapshot root = wf_snapshot_for registry root"

text \<open>Scenario 4 of the specification: the namespace \<^verbatim>\<open>ns1\<close> with one class on the
  saved side and none on the current side.\<close>

definition sample_snapshot_saved :: jvalue where
  "sample_snapshot_saved =
     JObj [(''namespaces'',
            JArr [JObj [(''id'', JStr ''ns1''),
                        (''classes'', JArr [JObj [(''id'', JStr ''c1'')]])]]),
           (''users'', JArr [JObj [(''id'', JStr ''u1''), (''name'', JStr ''Ann'')]])]"

definition sample_snapshot_current :: jvalue where
  "sample_snapshot_current =
     JObj [(''namespaces'',
            JArr [JObj [(''id'', JStr ''ns1''), (''classes'', JArr [])]]),
           (''users'', JArr [JObj [(''id'', JStr ''u1''), (''name'', JStr ''Ann2'')]])]"

text \<open>The state of the loops that collect sections: the counter is the sum of the totals
  collected so far, and every collected section has consistent totals.\<close>

definition totals_inv :: "diff_section list \<times> nat \<Rightarrow> bool" where
  "totals_inv st \<longleftrightarrow>
     snd st = sum_list (map sec_totalDifferences (fst st)) \<and> list_all totals_consistent (fst st)"

text \<open>The registry entry with child entries, its two collections in the sample snapshots,
  and the section the engine returns for them.\<close>

definition namespaces_config :: config where
  "namespaces_config =
     Config ''namespaces'' ''Namespaces'' Entity (Some ''id'')
       [Config ''classes'' ''Classes'' Entity (Some ''id'') [],
        Config ''globals'' ''Globals'' Entity (Some ''id'') [],
        Config ''credentials'' ''Credentials'' Entity (Some ''id'') [],
        Config ''productionItems'' ''Production Items'' Entity (Some ''id'') [],
        Config ''lookups'' ''Lookup Tables'' Flat None []]"

definition sample_namespaces_saved :: "jvalue list" where
  "sample_namespaces_saved =
     [JObj [(''id'', JStr ''ns1''), (''classes'', JArr [JObj [(''id'', JStr ''c1'')]])]]"

definition sample_namespaces_current :: "jvalue list" where
  "sample_namespaces_current = [JObj [(''id'', JStr ''ns1''), (''classes'', JArr [])]]"

definition empty_entity_summary :: entity_summary where
  "empty_entity_summary = \<lparr>es_missing = 0, es_extra = 0, es_changed = 0, es_inSync = 0\<rparr>"

definition sample_namespaces_section :: diff_section where
  "sample_namespaces_section =
     EntitySection ''namespaces'' ''Namespaces''
       \<lparr>es_missing = 0, es_extra = 0, es_changed = 0, es_inSync = 1\<rparr>
       [] [] [\<lparr>me_id = ''ns1'', me_differences = []\<rparr>]
       (Some
         [EntitySection ''classes'' ''Classes''
            \<lparr>es_missing = 1, es_extra = 0, es_changed = 0, es_inSync = 0\<rparr>
            [\<lparr>er_id = ''c1'', er_entity = JObj [(''id'', JStr ''c1'')]\<rparr>] [] [] None 1
            (Some ''ns1'') (Some ''Namespaces''),
          EntitySection ''globals'' ''Globals'' empty_entity_summary [] [] [] None 0
            (Some ''ns1'') (Some ''Namespaces''),
          EntitySection ''credentials'' ''Credentials'' empty_entity_summary [] [] [] None 0
            (Some ''ns1'') (Some ''Namespaces''),
          EntitySection ''productionItems'' ''Production Items'' empty_entity_summary [] [] []
            None 0 (Some ''ns1'') (Some ''Namespaces''),
          FlatSection ''lookups'' ''Lookup Tables'' \<lparr>fs_missing = 0, fs_extra = 0\<rparr> [] [] 0
            (Some ''ns1'') (Some ''Namespaces'')])
       1 None None"

subsection \<open>Parents and their child collections\<close>

text \<open>\<^verbatim>\<open>root[k] || []\<close> for a root or a parent record that is not \<^verbatim>\<open>null\<close>.\<close>

definition collection_at :: "jvalue \<Rightarrow> string \<Rightarrow> rvalue" where
  "collection_at root k =
     (case js_get root k of Inr v \<Rightarrow> or_else v (Data (JArr [])) | Inl _ \<Rightarrow> Data (JArr []))"

text \<open>A property list whose entry for a child descriptor, when present, is a collection
  for it; a record with such properties; and the properties of the parent that an index
  holds under an id (none when the id is not indexed).\<close>

definition child_ok :: "(string \<times> jvalue) list \<Rightarrow> config \<Rightarrow> bool" where
  "child_ok kvs ch =
     (case map_of kvs (cfg_key ch) of None \<Rightarrow> True | Some v \<Rightarrow> wf_collection ch v)"

definition wf_record :: "strategy \<Rightarrow> string option \<Rightarrow> config list \<Rightarrow> jvalue \<Rightarrow> bool" where
  "wf_record strat idField chs item =
     (case item of
        JObj kvs \<Rightarrow> ids_print strat idField item \<and> list_all (child_ok kvs) chs
      | _ \<Rightarrow> False)"

definition parent_props :: "id_map \<Rightarrow> string \<Rightarrow> (string \<times> jvalue) list" where
  "parent_props idx pid = (case map_of idx pid of Some (JObj kvs) \<Rightarrow> kvs | _ \<Rightarrow> [])"

text \<open>The child section the engine builds for one parent id and one child descriptor,
  from the property lists of the two parent records.\<close>

definition child_section_of ::
  "string \<Rightarrow> (string \<times> jvalue) list \<Rightarrow> (string \<times> jvalue) list \<Rightarrow> string \<Rightarrow> config
     \<Rightarrow> diff_section \<Rightarrow> bool" where
  "child_section_of label sp cp pid ch sec =
     (case compareSection ch (collection_at (JObj sp) (cfg_key ch))
                            (collection_at (JObj cp) (cfg_key ch)) of
        Inr child \<Rightarrow> sec = set_parent pid label child
      | Inl _ \<Rightarrow> False)"

text \<open>A key under which a snapshot root holds nothing or the empty array; a key under
  which it holds nothing; and a root with one more key bound to the empty array.\<close>

definition absent_or_empty :: "jvalue \<Rightarrow> string \<Rightarrow> bool" where
  "absent_or_empty root k =
     (case root of
        JObj kvs \<Rightarrow> js_get root k = Inr None \<or> js_get root k = Inr (Some (Data (JArr [])))
      | _ \<Rightarrow> False)"

definition key_absent :: "jvalue \<Rightarrow> string \<Rightarrow> bool" where
  "key_absent root k = (case root of JObj kvs \<Rightarrow> js_get root k = Inr None | _ \<Rightarrow> False)"

definition with_empty :: "string \<Rightarrow> jvalue \<Rightarrow> jvalue" where
  "with_empty k root = (case root of JObj kvs \<Rightarrow> JObj (kvs @ [(k, JArr [])]) | r \<Rightarrow> r)"
section \<open>The printers are injective\<close>

lemma of_char_digit: "d < 10 \<Longrightarrow> (of_char (digit_char d) :: nat) = 48 + d"
  by (simp add: digit_char_def)

lemma digits_val_show_nat: "digits_val (show_nat n) = n"
proof (induction n rule: show_nat.induct)
  case (1 n)
  show ?case
  proof (cases "n < 10")
    case True
    then show ?thesis by (subst show_nat.simps) (simp add: digits_val_def of_char_digit)
  next
    case False
    have m: "n mod 10 < 10" by simp
    from False 1 have "digits_val (show_nat (n div 10)) = n div 10" by simp
    with False m show ?thesis
      by (subst show_nat.simps) (simp add: digits_val_def of_char_digit)
  qed
qed

lemma show_nat_inj: "show_nat a = show_nat b \<Longrightarrow> a = b"
  by (metis digits_val_show_nat)

lemma is_digit_digit_char: "d < 10 \<Longrightarrow> is_digit (digit_char d)"
  by (simp add: is_digit_def of_char_digit)

lemma show_nat_digits: "c \<in> set (show_nat n) \<Longrightarrow> is_digit c"
proof (induction n rule: show_nat.induct)
  case (1 n)
  show ?case
  proof (cases "n < 10")
    case True
    with 1(2) show ?thesis by (subst (asm) show_nat.simps) (auto simp: is_digit_digit_char)
  next
    case False
    with 1 show ?thesis by (subst (asm) (2) show_nat.simps) (auto simp: is_digit_digit_char)
  qed
qed

lemma show_nat_nonempty: "show_nat n \<noteq> []"
  by (subst show_nat.simps) simp

lemma hex_val_hex_digit: "n < 16 \<Longrightarrow> hex_val (hex_digit n) = n"
  by (auto simp: hex_val_def hex_digit_def)

lemma unquote_quote_char: "unquote_char (quote_char c @ r) = (c, r)"
proof -
  have hex: "(of_char c :: nat) < 32 \<Longrightarrow>
     char_of (16 * hex_val (hex_digit (of_char c div 16)) + hex_val (hex_digit (of_char c mod 16 :: nat))) = c"
  proof -
    assume a: "(of_char c :: nat) < 32"
    then have "(of_char c :: nat) div 16 < 16" by simp
    moreover have "(of_char c :: nat) mod 16 < 16" by simp
    ultimately show ?thesis by (simp add: hex_val_hex_digit)
  qed
  show ?thesis
    by (cases r) (auto simp: quote_char_def hex)
qed

lemma quote_char_cancel:
  "quote_char c @ r = quote_char d @ r' \<Longrightarrow> c = d \<and> r = r'"
  by (metis unquote_quote_char prod.inject)

lemma quote_char_nonempty: "quote_char c \<noteq> []"
  by (simp add: quote_char_def)

lemma concat_quote_inj:
  "concat (map quote_char s) = concat (map quote_char t) \<Longrightarrow> s = t"
proof (induction s arbitrary: t)
  case Nil
  then show ?case by (cases t) (auto simp: quote_char_nonempty)
next
  case (Cons c s)
  show ?case
  proof (cases t)
    case Nil
    with Cons.prems show ?thesis by (auto simp: quote_char_nonempty)
  next
    case (Cons d t')
    with Cons.prems have "quote_char c @ concat (map quote_char s) = quote_char d @ concat (map quote_char t')"
      by simp
    then have "c = d" and "concat (map quote_char s) = concat (map quote_char t')"
      using quote_char_cancel by blast+
    with Cons.IH Cons show ?thesis by simp
  qed
qed

lemma quote_json_string_inj: "quote_json_string s = quote_json_string t \<Longrightarrow> s = t"
  by (simp add: quote_json_string_def concat_quote_inj)

lemma show_int_inj: "show_int a = show_int b \<Longrightarrow> a = b"
proof -
  assume eq: "show_int a = show_int b"
  have nd: "\<And>n. hd (show_nat n) \<noteq> CHR ''-''"
  proof -
    fix n
    have "hd (show_nat n) \<in> set (show_nat n)" by (simp add: show_nat_nonempty)
    then have "is_digit (hd (show_nat n))" by (rule show_nat_digits)
    then show "hd (show_nat n) \<noteq> CHR ''-''" by (auto simp: is_digit_def)
  qed
  have ne: "\<And>n m. CHR ''-'' # show_nat n \<noteq> show_nat m"
    using nd by (metis list.sel(1))
  show ?thesis
  proof (cases "a < 0"; cases "b < 0")
    assume "a < 0" "b < 0"
    with eq have "nat (- a) = nat (- b)" by (simp add: show_int_def show_nat_inj)
    with \<open>a < 0\<close> \<open>b < 0\<close> show ?thesis by simp
  next
    assume "a < 0" "\<not> b < 0"
    with eq ne show ?thesis by (simp add: show_int_def)
  next
    assume "\<not> a < 0" "b < 0"
    with eq ne[of "nat (- b)" "nat a"] show ?thesis by (simp add: show_int_def)
  next
    assume "\<not> a < 0" "\<not> b < 0"
    with eq have "nat a = nat b" by (simp add: show_int_def show_nat_inj)
    with \<open>\<not> a < 0\<close> \<open>\<not> b < 0\<close> show ?thesis by simp
  qed
qed

lemma show_int_chars: "set (show_int i) \<subseteq> number_chars"
  using show_nat_digits by (auto simp: show_int_def number_chars_def)

lemma show_int_nonempty: "show_int i \<noteq> []"
  by (simp add: show_int_def show_nat_nonempty)

lemma show_int_hd: "hd (show_int i) \<in> number_chars"
  using show_int_chars[of i] show_int_nonempty[of i] by (meson hd_in_set subsetD)

lemma number_chars_simps:
  "CHR ''n'' \<notin> number_chars" "CHR ''t'' \<notin> number_chars" "CHR ''f'' \<notin> number_chars"
  "CHR 0x22 \<notin> number_chars" "CHR ''['' \<notin> number_chars" "CHR ''{'' \<notin> number_chars"
  by (auto simp: number_chars_def is_digit_def)

lemma canonicalize_hd: "hd (canonicalize v) \<in> lead_chars v"
  by (cases v) (auto simp: show_int_hd quote_json_string_def)

lemma lead_chars_overlap:
  assumes "canonicalize a = canonicalize b"
  shows "lead_chars a \<inter> lead_chars b \<noteq> {}"
proof -
  have "hd (canonicalize a) \<in> lead_chars a" by (rule canonicalize_hd)
  moreover have "hd (canonicalize a) \<in> lead_chars b"
    unfolding assms by (rule canonicalize_hd)
  ultimately show ?thesis by blast
qed

lemma canonicalize_kind:
  assumes "canonicalize a = canonicalize b"
  shows "typeof a = typeof b \<and> (a = JNull \<longleftrightarrow> b = JNull)"
  using lead_chars_overlap[OF assms]
  by (cases a; cases b) (auto simp: number_chars_simps)

lemma canonicalize_primitive_inj:
  assumes "canonicalize a = canonicalize b"
    and "typeof a \<noteq> T_object \<or> a = JNull"
  shows "a = b"
proof -
  from canonicalize_kind[OF assms(1)]
  have k: "typeof a = typeof b" "a = JNull \<longleftrightarrow> b = JNull" by blast+
  show ?thesis
  proof (cases a)
    case JNull
    with k show ?thesis by simp
  next
    case (JBool x)
    with k assms(1) show ?thesis by (cases b) (auto split: if_splits)
  next
    case (JNum x)
    with k assms(1) show ?thesis by (cases b) (auto dest: show_int_inj)
  next
    case (JStr x)
    with k assms(1) show ?thesis by (cases b) (auto dest: quote_json_string_inj)
  next
    case (JArr x)
    with assms(2) show ?thesis by simp
  next
    case (JObj x)
    with assms(2) show ?thesis by simp
  qed
qed

lemma valuesEqual_iff: "valuesEqual a b \<longleftrightarrow> canonicalize a = canonicalize b"
proof
  assume "valuesEqual a b"
  then show "canonicalize a = canonicalize b"
    by (auto simp: valuesEqual_def strict_equals_def split: if_splits jvalue.splits)
next
  assume eq: "canonicalize a = canonicalize b"
  then have k: "typeof a = typeof b" "a = JNull \<longleftrightarrow> b = JNull"
    using canonicalize_kind by blast+
  show "valuesEqual a b"
  proof (cases "typeof a \<noteq> T_object \<or> a = JNull")
    case True
    with eq have "a = b" by (intro canonicalize_primitive_inj)
    with True show ?thesis by (cases a) (auto simp: valuesEqual_def strict_equals_def)
  next
    case False
    with k eq show ?thesis by (auto simp: valuesEqual_def)
  qed
qed

section \<open>Canonical strings and reordering\<close>

lemma sort_mset_cong: "mset xs = mset ys \<Longrightarrow> sort xs = sort (ys :: 'a::linorder list)"
  by (metis sorted_list_of_multiset_mset)

lemma map_of_list_all2:
  assumes "list_all2 (\<lambda>p q. fst p = fst q \<and> P (snd p) (snd q)) kvs kvs'"
  shows "rel_option P (map_of kvs k) (map_of kvs' k)"
  using assms by (induction rule: list_all2_induct) auto

lemma keys_list_all2:
  assumes "list_all2 (\<lambda>p q. fst p = fst q \<and> P (snd p) (snd q)) kvs kvs'"
  shows "map fst kvs = map fst kvs'"
  using assms by (induction rule: list_all2_induct) auto

lemma map_of_mset_cong:
  assumes "mset kvs = mset kvs'" "distinct (map fst kvs)"
  shows "map_of kvs = map_of kvs'"
proof -
  from assms(1) have "mset (map fst kvs) = mset (map fst kvs')" by (metis mset_map)
  with assms(2) have "distinct (map fst kvs')" by (metis mset_eq_imp_distinct_iff)
  moreover from assms(1) have "set kvs = set kvs'" by (rule mset_eq_setD)
  ultimately show ?thesis using assms(2) by (simp add: map_of_inject_set)
qed

lemma canonicalize_reordered_aux: "reordered a b \<Longrightarrow> canonicalize a = canonicalize b"
proof (induction rule: reordered.induct)
  case (same v)
  show ?case by simp
next
  case (elements xs ys zs)
  from elements(1) have "map canonicalize xs = map canonicalize ys"
    by (induction rule: list_all2_induct) auto
  moreover from elements(2) have "mset (map canonicalize ys) = mset (map canonicalize zs)"
    by (metis mset_map)
  ultimately have "sort (map canonicalize xs) = sort (map canonicalize zs)"
    by (simp add: sort_mset_cong)
  then show ?case by simp
next
  case (properties kvs kvs' kvs'')
  have l2: "list_all2 (\<lambda>p q. fst p = fst q \<and> canonicalize (snd p) = canonicalize (snd q)) kvs kvs'"
    using properties(1) by (rule list_all2_mono) auto
  have keys: "map fst kvs = map fst kvs'" using l2 by (rule keys_list_all2)
  with properties(3) have d': "distinct (map fst kvs')" by simp
  have m: "map_of kvs' = map_of kvs''" using properties(2) d' by (rule map_of_mset_cong)
  have "set (map fst kvs') = set (map fst kvs'')"
    using properties(2) by (metis mset_map mset_eq_setD)
  with keys have ks: "sort (object_keys (JObj kvs)) = sort (object_keys (JObj kvs''))"
    by (simp add: object_keys_def sorted_list_of_set_sort_remdups[symmetric])
  have vals: "(case map_of kvs k of Some v \<Rightarrow> canonicalize v | None \<Rightarrow> ''undefined'')
      = (case map_of kvs'' k of Some v \<Rightarrow> canonicalize v | None \<Rightarrow> ''undefined'')" for k
    using map_of_list_all2[OF l2, of k] unfolding m
    by (auto elim!: option.rel_cases)
  show ?case by (simp add: ks vals)
qed

section \<open>The entity strategy as a function of its two indexes\<close>

lemma error_unique [simp]: "(e :: error) = e'"
  by (cases e; cases e') simp

lemma map_set_update: "map_set k v m = AList.update k v m"
  by (induction m) auto

lemma map_of_map_set: "map_of (map_set k v m) = (map_of m)(k \<mapsto> v)"
  by (simp add: map_set_update update_conv')

lemma keys_map_set:
  "map fst (map_set k v m) = (if k \<in> set (map fst m) then map fst m else map fst m @ [k])"
  by (simp add: map_set_update update_keys)

lemma first_occurrences_filter:
  "first_occurrences (filter P xs) = filter P (first_occurrences xs)"
proof (induction xs rule: first_occurrences.induct)
  case 1
  show ?case by simp
next
  case (2 x xs)
  have comm: "filter (\<lambda>y. y \<noteq> x) (filter P xs) = filter P (filter (\<lambda>y. y \<noteq> x) xs)"
    by (simp add: conj_commute)
  show ?case
  proof (cases "P x")
    case True
    with 2 comm show ?thesis by simp
  next
    case False
    have "filter P (filter (\<lambda>y. y \<noteq> x) xs) = filter P xs"
      using False by (auto intro: filter_cong)
    with 2 False show ?thesis by simp
  qed
qed

lemma set_first_occurrences [simp]: "set (first_occurrences xs) = set xs"
  by (induction xs rule: first_occurrences.induct) auto

lemma distinct_first_occurrences [simp]: "distinct (first_occurrences xs)"
  by (induction xs rule: first_occurrences.induct) auto

lemma first_occurrences_distinct: "distinct xs \<Longrightarrow> first_occurrences xs = xs"
proof (induction xs)
  case Nil
  show ?case by simp
next
  case (Cons a xs)
  then have "filter (\<lambda>y. y \<noteq> a) xs = xs" by (auto simp: filter_id_conv)
  with Cons show ?case by simp
qed

lemma keys_index_of_pairs:
  "map fst (index_of_pairs m kvs)
     = map fst m @ first_occurrences (filter (\<lambda>k. k \<notin> set (map fst m)) (map fst kvs))"
proof (induction kvs arbitrary: m)
  case Nil
  show ?case by (simp add: index_of_pairs_def)
next
  case (Cons p kvs)
  have step: "index_of_pairs m (p # kvs) = index_of_pairs (map_set (fst p) (snd p) m) kvs"
    by (simp add: index_of_pairs_def)
  show ?case
  proof (cases "fst p \<in> set (map fst m)")
    case True
    then show ?thesis unfolding step Cons.IH by (simp add: keys_map_set)
  next
    case False
    have "filter (\<lambda>k. k \<notin> set (map fst m @ [fst p])) (map fst kvs)
          = filter (\<lambda>y. y \<noteq> fst p) (filter (\<lambda>k. k \<notin> set (map fst m)) (map fst kvs))"
      by (auto intro: filter_cong)
    with False show ?thesis unfolding step Cons.IH by (simp add: keys_map_set)
  qed
qed

lemma map_of_index_of_pairs:
  "map_of (index_of_pairs m kvs) = map_of m ++ map_of (rev kvs)"
proof (induction kvs arbitrary: m)
  case Nil
  show ?case by (simp add: index_of_pairs_def)
next
  case (Cons p kvs)
  have step: "index_of_pairs m (p # kvs) = index_of_pairs (map_set (fst p) (snd p) m) kvs"
    by (simp add: index_of_pairs_def)
  show ?case unfolding step Cons.IH
    by (cases p) (auto simp: map_of_map_set map_add_def fun_eq_iff split: option.splits)
qed

lemma js_get_nonnull: "item \<noteq> JNull \<Longrightarrow> \<exists>r. js_get item f = Inr r"
  by (cases item) (simp_all add: js_get_def split: option.splits)

lemma indexById_loop_ok:
  "JNull \<notin> set arr \<Longrightarrow> list_all (id_prints f) arr
     \<Longrightarrow> indexById_loop arr f m = Inr (index_of_pairs m (keyed f arr))"
proof (induction arr arbitrary: m)
  case Nil
  show ?case by (simp add: index_of_pairs_def keyed_def List.map_filter_simps)
next
  case (Cons item arr)
  then have nn: "item \<noteq> JNull" and rest: "JNull \<notin> set arr"
    and p: "id_prints f item" and ps: "list_all (id_prints f) arr" by auto
  from nn obtain r where g: "js_get item f = Inr r"
    using js_get_nonnull by blast
  have step: "index_of_pairs m (keyed f (item # arr))
      = (case id_of f item of Some i \<Rightarrow> index_of_pairs (map_set i item m) (keyed f arr)
         | None \<Rightarrow> index_of_pairs m (keyed f arr))"
    by (simp add: keyed_def List.map_filter_simps index_of_pairs_def split: option.splits)
  show ?case
  proof (cases r)
    case None
    with g show ?thesis unfolding step by (simp add: id_of_def Cons.IH[OF rest ps])
  next
    case (Some v)
    from p g Some obtain key where k: "js_String v = Inr key"
      by (auto simp: id_prints_def split: sum.splits)
    from g Some k show ?thesis unfolding step by (simp add: id_of_def Cons.IH[OF rest ps])
  qed
qed

text \<open>The loop throws exactly when it meets \<^verbatim>\<open>null\<close> or an id that does not convert.\<close>

lemma indexById_loop_throws:
  "\<not> list_all (id_prints f) arr \<Longrightarrow> indexById_loop arr f m = Inl TypeError"
proof (induction arr arbitrary: m)
  case Nil
  then show ?case by simp
next
  case (Cons item arr)
  show ?case
  proof (cases "id_prints f item")
    case True
    with Cons.prems have "\<not> list_all (id_prints f) arr" by simp
    from Cons.IH[OF this] show ?thesis
      by (auto split: sum.splits option.splits)
  next
    case False
    then show ?thesis
      by (auto simp: id_prints_def split: sum.splits option.splits)
  qed
qed

lemma indexById_loop_fail:
  "JNull \<in> set arr \<Longrightarrow> indexById_loop arr f m = Inl TypeError"
proof (induction arr arbitrary: m)
  case Nil
  then show ?case by simp
next
  case (Cons item arr)
  show ?case
  proof (cases "item = JNull")
    case True
    then show ?thesis by (simp add: js_get_def)
  next
    case False
    with Cons.prems have "JNull \<in> set arr" by auto
    from Cons.IH[OF this] show ?thesis
      by (auto split: sum.splits option.splits)
  qed
qed

lemma own_property_record [simp]: "own_property (JObj kvs) k = map_of kvs k"
  by (simp add: own_property_def)

lemma js_get_record:
  "js_get (JObj kvs) k
     = Inr (case map_of kvs k of Some x \<Rightarrow> Some (Data x)
            | None \<Rightarrow> map_option Builtin (inherited ObjectClass k))"
  by (simp add: js_get_def split: option.splits)

lemma js_in_record:
  "js_in k (JObj kvs) = Inr (map_of kvs k \<noteq> None \<or> inherited ObjectClass k \<noteq> None)"
  by (simp add: js_in_def)

text \<open>A name that \<^verbatim>\<open>Object.prototype\<close> does not hold is read and tested as an own
  property.\<close>

lemma js_get_plain:
  "inherited ObjectClass k = None \<Longrightarrow> js_get (JObj kvs) k = Inr (map_option Data (map_of kvs k))"
  by (simp add: js_get_record split: option.splits)

lemma js_in_plain:
  "inherited ObjectClass k = None \<Longrightarrow> js_in k (JObj kvs) = Inr (map_of kvs k \<noteq> None)"
  by (simp add: js_in_record)

lemma valuesEqual_read_data [simp]:
  "valuesEqual_read (Some (Data a)) (Some (Data b)) = valuesEqual a b"
  by (simp add: valuesEqual_read_def valuesEqual_def)

lemma valuesEqual_read_undefined [simp]: "valuesEqual_read None None"
  by (simp add: valuesEqual_read_def)

text \<open>On two records \<^verbatim>\<open>diffProperties\<close> returns.\<close>

lemma diffProperties_loop_returns:
  "\<exists>d. diffProperties_loop keys (JObj s) (JObj c) f ex diffs = Inr d"
proof (induction keys arbitrary: diffs)
  case Nil
  show ?case by simp
next
  case (Cons k keys)
  show ?case using Cons.IH by (simp add: js_get_record js_in_record)
qed

lemma diffProperties_returns: "\<exists>d. diffProperties (JObj s) (JObj c) f ex = Inr d"
  by (simp add: diffProperties_def diffProperties_loop_returns)

text \<open>Where no property name of the two records is a name that \<^verbatim>\<open>Object.prototype\<close>
  holds, the loop computes the differences in the words of the specification.\<close>

lemma diffProperties_loop_records:
  "\<forall>k\<in>set keys. inherited ObjectClass k = None \<Longrightarrow>
   diffProperties_loop keys (JObj s) (JObj c) f ex diffs
     = Inr (diffs @ List.map_filter (property_difference s c)
                      (filter (\<lambda>k. k \<noteq> f \<and> k \<notin> set ex) keys))"
proof (induction keys arbitrary: diffs)
  case Nil
  show ?case by (simp add: List.map_filter_simps)
next
  case (Cons k keys)
  then have k: "inherited ObjectClass k = None"
    and ks: "\<forall>k\<in>set keys. inherited ObjectClass k = None" by simp_all
  show ?case
    by (cases "map_of s k"; cases "map_of c k")
       (auto simp: Cons.IH[OF ks] js_get_plain[OF k] js_in_plain[OF k] List.map_filter_simps
          property_difference_def valuesEqual_iff)
qed

lemma diffProperties_records:
  assumes "plain_record (JObj s)" "plain_record (JObj c)"
  shows "diffProperties (JObj s) (JObj c) f ex = Inr (differences_spec s c f ex)"
proof -
  have k: "sort (remdups (object_keys (JObj s) @ object_keys (JObj c)))
        = sorted_list_of_set (set (map fst s) \<union> set (map fst c))"
    by (simp add: object_keys_def sorted_list_of_set_sort_remdups[symmetric])
  have "\<forall>k\<in>set (sorted_list_of_set (set (map fst s) \<union> set (map fst c))).
          inherited ObjectClass k = None"
    using assms by (auto simp: plain_record_def list_all_iff)
  from diffProperties_loop_records[OF this, of s c f ex "[]"] show ?thesis
    by (simp add: diffProperties_def k differences_spec_def)
qed

lemma absent_from_eq:
  "absent_from m other out = out @ map entity_ref_of (filter (\<lambda>p. \<not> map_has other (fst p)) m)"
  by (induction m other out rule: absent_from.induct) (auto simp: entity_ref_of_def)

lemma phase2_loop_eq:
  "phase2_loop m cm f ex (ma, c, s) =
     (if list_all (diff_ok cm f ex) m
      then Inr (ma @ map (match_entry cm f ex) (filter (\<lambda>p. map_has cm (fst p)) m),
                c + length (filter (\<lambda>e. me_differences e \<noteq> [])
                      (map (match_entry cm f ex) (filter (\<lambda>p. map_has cm (fst p)) m))),
                s + length (filter (\<lambda>e. me_differences e = [])
                      (map (match_entry cm f ex) (filter (\<lambda>p. map_has cm (fst p)) m))))
      else Inl TypeError)"
proof (induction m arbitrary: ma c s)
  case Nil
  show ?case by simp
next
  case (Cons p m)
  obtain i se where p: "p = (i, se)" by (cases p)
  show ?case
  proof (cases "map_of cm i")
    case None
    then show ?thesis unfolding p
      by (simp add: Cons.IH map_has_def diff_ok_def)
  next
    case (Some ce)
    show ?thesis
    proof (cases "diffProperties se ce f ex")
      case (Inl e)
      with Some show ?thesis unfolding p by (simp add: map_has_def diff_ok_def)
    next
      case (Inr d)
      with Some show ?thesis unfolding p
        by (simp add: Cons.IH map_has_def diff_ok_def match_entry_def)
    qed
  qed
qed

lemma indexById_eq:
  "indexById arr f =
     (if JNull \<in> set arr \<or> \<not> list_all (id_prints f) arr then Inl TypeError
      else Inr (index_of f arr))"
  by (simp add: indexById_def index_of_def indexById_loop_ok indexById_loop_fail
        indexById_loop_throws)

lemma entityCompare_eq:
  "entityCompare saved current f ex =
     (if JNull \<in> set saved \<or> JNull \<in> set current
         \<or> \<not> list_all (id_prints f) saved \<or> \<not> list_all (id_prints f) current
         \<or> \<not> list_all (diff_ok (index_of f current) f ex) (index_of f saved)
      then Inl TypeError
      else Inr (entity_result_of (index_of f saved) (index_of f current) f ex))"
  by (simp add: entityCompare_def indexById_eq absent_from_eq phase2_loop_eq
        entity_result_of_def Let_def)

lemma keys_index_of: "map fst (index_of f arr) = first_occurrences (ids_of f arr)"
  by (simp add: index_of_def keys_index_of_pairs ids_of_def)

lemma distinct_index_of: "distinct (map fst (index_of f arr))"
  by (simp add: keys_index_of)

lemma keyed_Nil [simp]: "keyed f [] = []"
  by (simp add: keyed_def List.map_filter_simps)

lemma map_fst_filter: "map fst (filter (\<lambda>p. P (fst p)) xs) = filter P (map fst xs)"
  by (induction xs) auto

lemma keyed_Cons:
  "keyed f (item # arr) = (case id_of f item of Some i \<Rightarrow> (i, item) # keyed f arr | None \<Rightarrow> keyed f arr)"
  by (simp add: keyed_def List.map_filter_simps split: option.splits)

lemma keyed_append: "keyed f (xs @ ys) = keyed f xs @ keyed f ys"
  by (simp add: keyed_def List.map_filter_def)

lemma keyed_rev: "keyed f (rev arr) = rev (keyed f arr)"
  by (simp add: keyed_def List.map_filter_def rev_map rev_filter)

lemma map_of_keyed: "map_of (keyed f arr) i = find (\<lambda>item. id_of f item = Some i) arr"
  by (induction arr) (auto simp: keyed_Cons split: option.splits)

lemma map_of_index_of: "map_of (index_of f arr) i = last_with_id f arr i"
  by (simp add: index_of_def map_of_index_of_pairs last_with_id_def
        map_of_keyed[symmetric] keyed_rev)

lemma set_ids_of: "set (ids_of f arr) = {i. \<exists>item\<in>set arr. id_of f item = Some i}"
  by (induction arr) (auto simp: ids_of_def keyed_Cons split: option.splits)

lemma map_has_index_of: "map_has (index_of f arr) i \<longleftrightarrow> i \<in> set (ids_of f arr)"
proof -
  have "map_has (index_of f arr) i \<longleftrightarrow> i \<in> set (map fst (index_of f arr))"
    by (simp add: map_has_def map_of_eq_None_iff)
  then show ?thesis by (simp add: keys_index_of)
qed

lemma find_SomeD: "find P xs = Some x \<Longrightarrow> x \<in> set xs \<and> P x"
  by (induction xs) (auto split: if_splits)

lemma last_with_id_Some:
  "last_with_id f arr i = Some item \<Longrightarrow> item \<in> set arr \<and> id_of f item = Some i"
  unfolding last_with_id_def by (drule find_SomeD) simp

lemma index_of_member:
  assumes "(i, item) \<in> set (index_of f arr)"
  shows "last_with_id f arr i = Some item" "item \<in> set arr" "id_of f item = Some i"
proof -
  from assms distinct_index_of[of f arr] have "map_of (index_of f arr) i = Some item"
    by simp
  then show l: "last_with_id f arr i = Some item" by (simp add: map_of_index_of)
  from last_with_id_Some[OF l] show "item \<in> set arr" "id_of f item = Some i" by simp_all
qed

lemma records_not_null: "list_all is_record arr \<Longrightarrow> JNull \<notin> set arr"
  by (auto simp: list_all_iff)

lemma diff_ok_records:
  assumes "list_all is_record saved" "list_all is_record current"
  shows "list_all (diff_ok (index_of f current) f ex) (index_of f saved)"
  unfolding list_all_iff
proof
  fix p assume p: "p \<in> set (index_of f saved)"
  obtain i se where pe: "p = (i, se)" by (cases p)
  from p pe index_of_member(2)[of i se f saved] assms(1) have "is_record se"
    by (auto simp: list_all_iff)
  then obtain s where s: "se = JObj s" by (cases se) auto
  show "diff_ok (index_of f current) f ex p"
  proof (cases "map_of (index_of f current) i")
    case None
    then show ?thesis by (simp add: diff_ok_def pe)
  next
    case (Some ce)
    then have "(i, ce) \<in> set (index_of f current)" by (rule map_of_SomeD)
    from index_of_member(2)[OF this] assms(2) have "is_record ce" by (auto simp: list_all_iff)
    then obtain c where ce: "ce = JObj c" by (cases ce) auto
    from diffProperties_returns[of s c f ex] obtain d where
      "diffProperties (JObj s) (JObj c) f ex = Inr d" by blast
    with Some s ce show ?thesis by (simp add: diff_ok_def pe)
  qed
qed

lemma entityCompare_records:
  assumes "list_all is_record saved" "list_all is_record current"
    and "list_all (id_prints f) saved" "list_all (id_prints f) current"
  shows "entityCompare saved current f ex
           = Inr (entity_result_of (index_of f saved) (index_of f current) f ex)"
  using assms by (simp add: entityCompare_eq records_not_null diff_ok_records)

lemma missing_ids:
  "map er_id (res_missing (entity_result_of (index_of f saved) (index_of f current) f ex))
     = filter (\<lambda>i. i \<notin> set (ids_of f current)) (first_occurrences (ids_of f saved))"
proof -
  have "map er_id (res_missing (entity_result_of (index_of f saved) (index_of f current) f ex))
        = map fst (filter (\<lambda>p. fst p \<notin> set (ids_of f current)) (index_of f saved))"
    by (simp add: entity_result_of_def Let_def entity_ref_of_def comp_def map_has_index_of)
  also have "\<dots> = filter (\<lambda>i. i \<notin> set (ids_of f current)) (map fst (index_of f saved))"
    by (rule map_fst_filter)
  finally show ?thesis by (simp only: keys_index_of)
qed

lemma extra_ids:
  "map er_id (res_extra (entity_result_of (index_of f saved) (index_of f current) f ex))
     = filter (\<lambda>i. i \<notin> set (ids_of f saved)) (first_occurrences (ids_of f current))"
proof -
  have "map er_id (res_extra (entity_result_of (index_of f saved) (index_of f current) f ex))
        = map fst (filter (\<lambda>p. fst p \<notin> set (ids_of f saved)) (index_of f current))"
    by (simp add: entity_result_of_def Let_def entity_ref_of_def comp_def map_has_index_of)
  also have "\<dots> = filter (\<lambda>i. i \<notin> set (ids_of f saved)) (map fst (index_of f current))"
    by (rule map_fst_filter)
  finally show ?thesis by (simp only: keys_index_of)
qed

lemma matched_ids:
  "map me_id (res_matched (entity_result_of (index_of f saved) (index_of f current) f ex))
     = filter (\<lambda>i. i \<in> set (ids_of f current)) (first_occurrences (ids_of f saved))"
proof -
  have "map me_id (res_matched (entity_result_of (index_of f saved) (index_of f current) f ex))
        = map fst (filter (\<lambda>p. fst p \<in> set (ids_of f current)) (index_of f saved))"
    by (simp add: entity_result_of_def Let_def match_entry_def comp_def map_has_index_of)
  also have "\<dots> = filter (\<lambda>i. i \<in> set (ids_of f current)) (map fst (index_of f saved))"
    by (rule map_fst_filter)
  finally show ?thesis by (simp only: keys_index_of)
qed

lemma id_of_read:
  "js_get item f = Inr (Some v) \<Longrightarrow> v \<noteq> Data JNull \<Longrightarrow> js_String v = Inr key
     \<Longrightarrow> id_of f item = Some key"
  by (simp add: id_of_def)

lemma count_list_distinct: "distinct xs \<Longrightarrow> x \<in> set xs \<Longrightarrow> count_list xs x = 1"
  by (induction xs) (auto simp: count_list_0_iff)

lemma count_list_filter_partition:
  "distinct xs \<Longrightarrow> x \<in> set xs \<Longrightarrow>
   count_list (filter (\<lambda>i. \<not> P i) xs @ filter P xs) x = 1"
proof (induction xs)
  case Nil
  then show ?case by simp
next
  case (Cons a xs)
  show ?case
  proof (cases "x = a")
    case True
    with Cons.prems have "x \<notin> set xs" by simp
    then have "count_list (filter (\<lambda>i. \<not> P i) xs) x = 0" "count_list (filter P xs) x = 0"
      by (simp_all add: count_list_0_iff)
    with True show ?thesis by simp
  next
    case False
    with Cons show ?thesis by simp
  qed
qed

lemma count_list_disjoint_filters:
  assumes "distinct ys" "distinct xs" "x \<in> set ys"
  shows "count_list (filter (\<lambda>i. i \<notin> set xs) ys @ filter (\<lambda>i. i \<in> set ys) xs) x = 1"
proof (cases "x \<in> set xs")
  case True
  then have "count_list (filter (\<lambda>i. i \<notin> set xs) ys) x = 0" by (simp add: count_list_0_iff)
  moreover have "count_list (filter (\<lambda>i. i \<in> set ys) xs) x = 1"
    using assms True by (simp add: count_list_distinct)
  ultimately show ?thesis by simp
next
  case False
  then have "count_list (filter (\<lambda>i. i \<in> set ys) xs) x = 0" by (simp add: count_list_0_iff)
  moreover have "count_list (filter (\<lambda>i. i \<notin> set xs) ys) x = 1"
    using assms False by (simp add: count_list_distinct)
  ultimately show ?thesis by simp
qed

lemma keyed_filter_id:
  "keyed f (filter (\<lambda>item. id_of f item \<noteq> None) arr) = keyed f arr"
  by (induction arr) (auto simp: keyed_Cons split: option.splits)

lemma index_of_filter_id:
  "index_of f (filter (\<lambda>item. id_of f item \<noteq> None) arr) = index_of f arr"
  by (simp only: index_of_def keyed_filter_id)

lemma entity_of_missing:
  assumes "e \<in> set (res_missing (entity_result_of (index_of f saved) cm f ex))"
  shows "last_with_id f saved (er_id e) = Some (er_entity e)"
proof -
  from assms obtain p where "p \<in> set (index_of f saved)" "e = entity_ref_of p"
    by (auto simp: entity_result_of_def Let_def)
  then show ?thesis using index_of_member(1)[of "fst p" "snd p" f saved]
    by (simp add: entity_ref_of_def)
qed

lemma entity_of_extra:
  assumes "e \<in> set (res_extra (entity_result_of sm (index_of f current) f ex))"
  shows "last_with_id f current (er_id e) = Some (er_entity e)"
proof -
  from assms obtain p where "p \<in> set (index_of f current)" "e = entity_ref_of p"
    by (auto simp: entity_result_of_def Let_def)
  then show ?thesis using index_of_member(1)[of "fst p" "snd p" f current]
    by (simp add: entity_ref_of_def)
qed

lemma record_id_member:
  assumes "item \<in> set arr" "js_get item f = Inr (Some v)" "v \<noteq> Data JNull"
    and "js_String v = Inr key"
  shows "key \<in> set (ids_of f arr)"
proof -
  from assms(2,3,4) have "id_of f item = Some key" by (rule id_of_read)
  with assms(1) show ?thesis unfolding set_ids_of by blast
qed

lemma record_without_id:
  assumes "js_get item f = Inr None \<or> js_get item f = Inr (Some (Data JNull))"
  shows "id_of f item = None"
  using assms by (auto simp: id_of_def)

lemma id_prints_read:
  "id_prints f item \<Longrightarrow> js_get item f = Inr (Some v) \<Longrightarrow> \<exists>key. js_String v = Inr key"
  by (auto simp: id_prints_def split: sum.splits)

text \<open>An id that is a string, a number or a boolean always converts; so does an id that
  is inherited. An id that is an object with an own property \<^verbatim>\<open>toString\<close> does not,
  and \<^verbatim>\<open>entityCompare\<close> throws on it.\<close>

lemma primitive_id_prints:
  "js_get item f = Inr (Some (Data v)) \<Longrightarrow> typeof v \<noteq> T_object \<Longrightarrow> id_prints f item"
  by (cases v) (simp_all add: id_prints_def)

lemma inherited_id_prints: "js_get item f = Inr (Some (Builtin b)) \<Longrightarrow> id_prints f item"
  by (cases b) (simp_all add: id_prints_def)

lemma absent_id_prints: "js_get item f = Inr None \<Longrightarrow> id_prints f item"
  by (simp add: id_prints_def)

lemma object_id_throws:
  "\<not> id_prints ''id'' (JObj [(''id'', JObj [(''toString'', JNum 1)]), (''name'', JStr ''Ann'')])"
  "entityCompare [JObj [(''id'', JObj [(''toString'', JNum 1)]), (''name'', JStr ''Ann'')]] [] ''id'' []
     = Inl TypeError"
  by code_simp+

lemma records_filter: "list_all P arr \<Longrightarrow> list_all P (filter Q arr)"
  by (simp add: list_all_iff)

lemma sample_records: "list_all is_record sample_saved" "list_all is_record sample_current"
  by (simp_all add: sample_saved_def sample_current_def)

lemma sample_prints:
  "list_all (id_prints ''id'') sample_saved" "list_all (id_prints ''id'') sample_current"
  by code_simp+

lemma sample_run: "entityCompare sample_saved sample_current ''id'' [] = Inr sample_result"
  by code_simp

lemma record_cases: "is_record v \<Longrightarrow> \<exists>kvs. v = JObj kvs"
  by (cases v) auto

lemma matched_entry_char:
  assumes rs: "list_all is_record saved" and rc: "list_all is_record current"
    and m: "m \<in> set (res_matched (entity_result_of (index_of f saved) (index_of f current) f ex))"
  shows "\<exists>s c. last_with_id f saved (me_id m) = Some (JObj s)
           \<and> last_with_id f current (me_id m) = Some (JObj c)
           \<and> diffProperties (JObj s) (JObj c) f ex = Inr (me_differences m)"
proof -
  from m obtain p where p: "p \<in> set (index_of f saved)" "map_has (index_of f current) (fst p)"
    and me: "m = match_entry (index_of f current) f ex p"
    by (auto simp: entity_result_of_def Let_def)
  obtain i se where pe: "p = (i, se)" by (cases p)
  from p(1) pe have ls: "last_with_id f saved i = Some se" and "se \<in> set saved"
    using index_of_member[of i se f saved] by simp_all
  with rs have "is_record se" by (simp add: list_all_iff)
  then obtain s where s: "se = JObj s" using record_cases by blast
  from p(2) pe obtain ce where ce: "map_of (index_of f current) i = Some ce"
    by (auto simp: map_has_def)
  then have lc: "last_with_id f current i = Some ce" by (simp add: map_of_index_of)
  from last_with_id_Some[OF lc] rc have "is_record ce" by (simp add: list_all_iff)
  then obtain c where c: "ce = JObj c" using record_cases by blast
  from diffProperties_returns[of s c f ex] obtain d where
    d: "diffProperties (JObj s) (JObj c) f ex = Inr d" by blast
  have "me_id m = i" "me_differences m = d"
    using me pe ce s c d by (simp_all add: match_entry_def)
  with ls lc s c d show ?thesis by simp
qed

text \<open>For records without property names that \<^verbatim>\<open>Object.prototype\<close> holds, the
  differences of a matched entry are those the specification describes.\<close>

lemma matched_differences_plain:
  assumes rs: "list_all plain_record saved" and rc: "list_all plain_record current"
    and m: "m \<in> set (res_matched (entity_result_of (index_of f saved) (index_of f current) f ex))"
  shows "\<exists>s c. last_with_id f saved (me_id m) = Some (JObj s)
           \<and> last_with_id f current (me_id m) = Some (JObj c)
           \<and> me_differences m = differences_spec s c f ex"
proof -
  have r1: "is_record v" if "plain_record v" for v
    using that by (cases v) (simp_all add: plain_record_def)
  have r: "list_all is_record arr" if "list_all plain_record arr" for arr
    using that r1 by (auto simp: list_all_iff)
  from matched_entry_char[OF r[OF rs] r[OF rc] m] obtain s c where
      ls: "last_with_id f saved (me_id m) = Some (JObj s)"
    and lc: "last_with_id f current (me_id m) = Some (JObj c)"
    and d: "diffProperties (JObj s) (JObj c) f ex = Inr (me_differences m)"
    by blast
  from last_with_id_Some[OF ls] rs have ps: "plain_record (JObj s)" by (simp add: list_all_iff)
  from last_with_id_Some[OF lc] rc have pc: "plain_record (JObj c)" by (simp add: list_all_iff)
  from d diffProperties_records[OF ps pc, of f ex] ls lc show ?thesis by simp
qed

lemma sample_last:
  "last_with_id ''id'' sample_saved ''b'' = Some (JObj [(''id'', JStr ''b''), (''note'', JStr ''hi''), (''gone'', JNull)])"
  "last_with_id ''id'' sample_current ''b'' = Some (JObj [(''tags'', JArr [JNum 2, JNum 1]), (''id'', JStr ''b''), (''note'', JStr ''ho'')])"
  by code_simp+

lemma pd_property_differences:
  "map pd_property (List.map_filter (property_difference s c) ks)
     = filter (\<lambda>k. property_difference s c k \<noteq> None) ks"
  by (induction ks)
     (auto simp: List.map_filter_simps property_difference_def split: option.splits if_splits)

lemma differences_spec_sorted:
  "sorted (map pd_property (differences_spec s c f ex))
   \<and> distinct (map pd_property (differences_spec s c f ex))"
  by (simp add: differences_spec_def pd_property_differences sorted_wrt_filter)

lemma set_keep_last: "set (keep_last f arr) \<subseteq> set arr"
  by (induction arr) auto

lemma records_keep_last: "list_all P arr \<Longrightarrow> list_all P (keep_last f arr)"
  using set_keep_last[of f arr] by (auto simp: list_all_iff)

lemma find_append_case:
  "find P (xs @ ys) = (case find P xs of Some x \<Rightarrow> Some x | None \<Rightarrow> find P ys)"
  by (induction xs) auto

lemma mset_map_filter_cong:
  assumes "mset xs = mset ys"
  shows "mset (map g (filter P xs)) = mset (map g (filter P ys))"
proof -
  have "mset (map g (filter P xs)) = image_mset g (filter_mset P (mset xs))" by simp
  also have "\<dots> = image_mset g (filter_mset P (mset ys))" by (simp only: assms)
  also have "\<dots> = mset (map g (filter P ys))" by simp
  finally show ?thesis .
qed

lemma last_with_id_Cons:
  "last_with_id f (item # rest) i =
     (case last_with_id f rest i of Some x \<Rightarrow> Some x
      | None \<Rightarrow> if id_of f item = Some i then Some item else None)"
  by (simp add: last_with_id_def find_append_case split: option.splits)

lemma last_with_id_None: "last_with_id f arr i = None \<longleftrightarrow> Some i \<notin> id_of f ` set arr"
  by (auto simp: last_with_id_def find_None_iff image_iff)

lemma last_with_id_keep_last: "last_with_id f (keep_last f arr) i = last_with_id f arr i"
proof (induction arr)
  case Nil
  show ?case by simp
next
  case (Cons item rest)
  show ?case
  proof (cases "id_of f item \<noteq> None \<and> id_of f item \<in> id_of f ` set rest")
    case True
    then obtain j where j0: "id_of f item = Some j" by auto
    with True have j: "id_of f item = Some j" "Some j \<in> id_of f ` set rest" by simp_all
    then have "last_with_id f rest j \<noteq> None" by (simp add: last_with_id_None)
    with True j Cons show ?thesis
      by (auto simp: last_with_id_Cons split: option.splits)
  next
    case False
    with Cons show ?thesis by (auto simp: last_with_id_Cons split: option.splits)
  qed
qed

lemma index_of_keep_last_map_of:
  "map_of (index_of f (keep_last f arr)) = map_of (index_of f arr)"
  by (rule ext) (simp add: map_of_index_of last_with_id_keep_last)

lemma mset_eq_of_map_of:
  assumes "map_of xs = map_of ys" "distinct (map fst xs)" "distinct (map fst ys)"
  shows "mset xs = mset ys"
proof -
  from assms have "set xs = set ys" by (simp add: map_of_inject_set)
  moreover from assms(2,3) have "distinct xs" "distinct ys" by (simp_all add: distinct_map)
  ultimately show ?thesis by (simp add: set_eq_iff_mset_eq_distinct)
qed

lemma index_of_keep_last_mset:
  "mset (index_of f (keep_last f arr)) = mset (index_of f arr)"
  by (rule mset_eq_of_map_of) (simp_all add: index_of_keep_last_map_of distinct_index_of)

lemma entity_result_of_cong:
  assumes "mset sm' = mset sm" "mset cm' = mset cm" "map_of sm' = map_of sm" "map_of cm' = map_of cm"
  shows "mset (res_missing (entity_result_of sm' cm' f ex)) = mset (res_missing (entity_result_of sm cm f ex))"
    and "mset (res_extra (entity_result_of sm' cm' f ex)) = mset (res_extra (entity_result_of sm cm f ex))"
    and "mset (res_matched (entity_result_of sm' cm' f ex)) = mset (res_matched (entity_result_of sm cm f ex))"
    and "res_summary (entity_result_of sm' cm' f ex) = res_summary (entity_result_of sm cm f ex)"
proof -
  have h: "map_has cm' = map_has cm" "map_has sm' = map_has sm"
    using assms(3,4) by (simp_all add: map_has_def fun_eq_iff)
  have me: "match_entry cm' f ex = match_entry cm f ex"
    using assms(4) by (simp add: match_entry_def fun_eq_iff)
  show mi: "mset (res_missing (entity_result_of sm' cm' f ex)) = mset (res_missing (entity_result_of sm cm f ex))"
    by (simp add: entity_result_of_def Let_def h assms(1))
  show ex: "mset (res_extra (entity_result_of sm' cm' f ex)) = mset (res_extra (entity_result_of sm cm f ex))"
    by (simp add: entity_result_of_def Let_def h assms(2))
  show ma: "mset (res_matched (entity_result_of sm' cm' f ex)) = mset (res_matched (entity_result_of sm cm f ex))"
    by (simp add: entity_result_of_def Let_def h me assms(1))
  have len: "\<And>xs ys :: 'x list. mset xs = mset ys \<Longrightarrow> length xs = length ys"
    by (rule mset_eq_length)
  have flen: "\<And>(xs :: matched_entity list) ys P. mset xs = mset ys \<Longrightarrow> length (filter P xs) = length (filter P ys)"
  proof -
    fix xs ys :: "matched_entity list" and P
    assume "mset xs = mset ys"
    then have "mset (filter P xs) = mset (filter P ys)" by simp
    then show "length (filter P xs) = length (filter P ys)" by (rule mset_eq_length)
  qed
  have l1: "length (res_missing (entity_result_of sm' cm' f ex)) = length (res_missing (entity_result_of sm cm f ex))"
    using mi by (rule mset_eq_length)
  have l2: "length (res_extra (entity_result_of sm' cm' f ex)) = length (res_extra (entity_result_of sm cm f ex))"
    using ex by (rule mset_eq_length)
  have l3: "length (filter P (res_matched (entity_result_of sm' cm' f ex))) = length (filter P (res_matched (entity_result_of sm cm f ex)))" for P
    using ma by (rule flen)
  have sm: "res_summary (entity_result_of a b f ex) =
      \<lparr>es_missing = length (res_missing (entity_result_of a b f ex)),
       es_extra = length (res_extra (entity_result_of a b f ex)),
       es_changed = length (filter (\<lambda>e. me_differences e \<noteq> []) (res_matched (entity_result_of a b f ex))),
       es_inSync = length (filter (\<lambda>e. me_differences e = []) (res_matched (entity_result_of a b f ex)))\<rparr>" for a b
    by (simp add: entity_result_of_def Let_def)
  show "res_summary (entity_result_of sm' cm' f ex) = res_summary (entity_result_of sm cm f ex)"
    unfolding sm l1 l2 l3 by simp
qed

lemma duplicate_records:
  "list_all is_record duplicate_saved" "list_all is_record duplicate_current"
  by (simp_all add: duplicate_saved_def duplicate_current_def)

lemma duplicate_prints:
  "list_all (id_prints ''id'') duplicate_saved" "list_all (id_prints ''id'') duplicate_current"
  by code_simp+

lemma duplicate_index:
  "indexById duplicate_saved ''id'' =
     Inr [(''1'', JObj [(''id'', JNum 1), (''a'', JNum 2)]), (''2'', JObj [(''id'', JNum 2)])]"
  by code_simp

lemma duplicate_keep_last:
  "keep_last ''id'' duplicate_saved =
     [JObj [(''id'', JNum 2)], JObj [(''id'', JNum 1), (''a'', JNum 2)]]"
  "keep_last ''id'' duplicate_current = duplicate_current"
  by code_simp+

lemma duplicate_runs:
  "entityCompare duplicate_saved duplicate_current ''id'' [] = Inr duplicate_matched_result"
  "entityCompare duplicate_saved [] ''id'' [] = Inr duplicate_result"
  by code_simp+

lemma first_position_Cons:
  "first_position (a # xs) x = (if x = a then 0 else Suc (first_position xs x))"
  by (simp add: first_position_def)

lemma first_position_filter:
  "P i \<Longrightarrow> P j \<Longrightarrow>
   first_position (filter P xs) i < first_position (filter P xs) j
     \<longleftrightarrow> first_position xs i < first_position xs j"
  by (induction xs) (auto simp: first_position_Cons)

lemma first_occurrences_ordered:
  "sorted_wrt (\<lambda>i j. first_position xs i < first_position xs j) (first_occurrences xs)"
proof (induction xs rule: first_occurrences.induct)
  case 1
  show ?case by simp
next
  case (2 x xs)
  let ?ys = "filter (\<lambda>y. y \<noteq> x) xs"
  have a: "\<forall>y\<in>set (first_occurrences ?ys). first_position (x # xs) x < first_position (x # xs) y"
    by (auto simp: first_position_Cons)
  have "sorted_wrt (\<lambda>i j. first_position (x # xs) i < first_position (x # xs) j) (first_occurrences ?ys)"
  proof (rule sorted_wrt_mono_rel[OF _ 2])
    fix i j assume "i \<in> set (first_occurrences ?ys)" "j \<in> set (first_occurrences ?ys)"
      and lt: "first_position ?ys i < first_position ?ys j"
    then have "i \<noteq> x" "j \<noteq> x" by auto
    with lt show "first_position (x # xs) i < first_position (x # xs) j"
      by (simp add: first_position_Cons first_position_filter[of "\<lambda>y. y \<noteq> x"])
  qed
  with a show ?case by simp
qed

lemma filter_first_occurrences_ordered:
  "sorted_wrt (\<lambda>i j. first_position xs i < first_position xs j) (filter P (first_occurrences xs))"
  by (rule sorted_wrt_filter) (rule first_occurrences_ordered)

section \<open>The flat strategy as a function of key counts\<close>

lemma buildMultiset_loop_Cons:
  "buildMultiset_loop (item # rest) m = buildMultiset_loop rest (ms_step m item)"
  by (simp add: ms_step_def Let_def)

lemma keys_ms_step:
  "map fst (ms_step m item) =
     (if canonicalize item \<in> set (map fst m) then map fst m else map fst m @ [canonicalize item])"
  by (simp add: ms_step_def keys_map_set split: option.splits)

lemma map_of_ms_step:
  "map_of (ms_step m item) =
     (map_of m)(canonicalize item \<mapsto>
        (case map_of m (canonicalize item) of
           Some e \<Rightarrow> e\<lparr>ms_count := ms_count e + 1\<rparr>
         | None \<Rightarrow> \<lparr>ms_count = 1, ms_value = item\<rparr>))"
  by (simp add: ms_step_def map_of_map_set split: option.splits)

lemma keys_buildMultiset_loop:
  "map fst (buildMultiset_loop arr m)
     = map fst m @ first_occurrences (filter (\<lambda>k. k \<notin> set (map fst m)) (map canonicalize arr))"
proof (induction arr arbitrary: m)
  case Nil
  show ?case by simp
next
  case (Cons item arr)
  show ?case
  proof (cases "canonicalize item \<in> set (map fst m)")
    case True
    then show ?thesis unfolding buildMultiset_loop_Cons Cons.IH by (simp add: keys_ms_step)
  next
    case False
    have "filter (\<lambda>k. k \<notin> set (map fst m @ [canonicalize item])) (map canonicalize arr)
          = filter (\<lambda>y. y \<noteq> canonicalize item)
              (filter (\<lambda>k. k \<notin> set (map fst m)) (map canonicalize arr))"
      by (auto intro: filter_cong)
    with False show ?thesis unfolding buildMultiset_loop_Cons Cons.IH by (simp add: keys_ms_step)
  qed
qed

lemma map_of_buildMultiset_loop:
  "map_of (buildMultiset_loop arr m) k =
     (case map_of m k of
        Some e \<Rightarrow> Some (e\<lparr>ms_count := ms_count e + key_count arr k\<rparr>)
      | None \<Rightarrow>
          (case find (\<lambda>item. canonicalize item = k) arr of
             Some item \<Rightarrow> Some \<lparr>ms_count = key_count arr k, ms_value = item\<rparr>
           | None \<Rightarrow> None))"
proof (induction arr arbitrary: m)
  case Nil
  show ?case by (simp add: key_count_def split: option.splits)
next
  case (Cons item arr)
  show ?case unfolding buildMultiset_loop_Cons Cons.IH
    by (auto simp: map_of_ms_step key_count_def split: option.splits)
qed

lemma keys_buildMultiset:
  "map fst (buildMultiset arr) = first_occurrences (map canonicalize arr)"
  by (simp add: buildMultiset_def keys_buildMultiset_loop)

lemma map_of_buildMultiset:
  "map_of (buildMultiset arr) k =
     (case find (\<lambda>item. canonicalize item = k) arr of
        Some item \<Rightarrow> Some \<lparr>ms_count = key_count arr k, ms_value = item\<rparr>
      | None \<Rightarrow> None)"
  by (simp add: buildMultiset_def map_of_buildMultiset_loop)

lemma key_count_zero: "find (\<lambda>item. canonicalize item = k) arr = None \<Longrightarrow> key_count arr k = 0"
  by (auto simp: key_count_def find_None_iff count_list_0_iff)

lemma count_of_buildMultiset:
  "(case map_of (buildMultiset arr) k of Some e \<Rightarrow> ms_count e | None \<Rightarrow> 0) = key_count arr k"
  by (simp add: map_of_buildMultiset key_count_zero split: option.splits)

lemma push_surplus_eq:
  "push_surplus m other out = out @ concat (map (surplus_of other) m)"
  by (induction m other out rule: push_surplus.induct)
     (auto simp: surplus_of_def map_has_def Let_def split: option.splits)

lemma buildMultiset_entry:
  assumes "(k, e) \<in> set (buildMultiset arr)"
  shows "ms_count e = key_count arr k" "ms_value e = representative arr k"
    "canonicalize (ms_value e) = k"
proof -
  have "distinct (map fst (buildMultiset arr))" by (simp add: keys_buildMultiset)
  with assms have m: "map_of (buildMultiset arr) k = Some e" by simp
  then obtain item where f: "find (\<lambda>item. canonicalize item = k) arr = Some item"
    and e: "e = \<lparr>ms_count = key_count arr k, ms_value = item\<rparr>"
    by (auto simp: map_of_buildMultiset split: option.splits)
  from e show "ms_count e = key_count arr k" by simp
  from e f show "ms_value e = representative arr k" by (simp add: representative_def)
  from find_SomeD[OF f] e show "canonicalize (ms_value e) = k" by simp
qed

lemma surplus_of_buildMultiset:
  assumes "(k, e) \<in> set (buildMultiset arr)"
  shows "surplus_of (buildMultiset other) (k, e)
           = replicate (key_count arr k - key_count other k) (representative arr k)"
  using buildMultiset_entry[OF assms]
  by (simp add: surplus_of_def count_of_buildMultiset)

lemma push_surplus_buildMultiset:
  "push_surplus (buildMultiset arr) (buildMultiset other) []
     = concat (map (\<lambda>k. replicate (key_count arr k - key_count other k) (representative arr k))
                 (first_occurrences (map canonicalize arr)))"
proof -
  have "map (surplus_of (buildMultiset other)) (buildMultiset arr)
        = map (\<lambda>p. replicate (key_count arr (fst p) - key_count other (fst p))
                     (representative arr (fst p))) (buildMultiset arr)"
    by (rule map_cong[OF refl]) (auto simp: surplus_of_buildMultiset)
  also have "\<dots> = map (\<lambda>k. replicate (key_count arr k - key_count other k) (representative arr k))
                     (map fst (buildMultiset arr))"
    by (simp add: comp_def)
  finally show ?thesis
    by (simp add: push_surplus_eq keys_buildMultiset)
qed

lemma missing_eq:
  "fr_missing (flatCompare saved current)
     = concat (map (\<lambda>k. replicate (key_count saved k - key_count current k) (representative saved k))
                 (first_occurrences (map canonicalize saved)))"
  by (simp add: flatCompare_def Let_def push_surplus_buildMultiset)

lemma extra_eq:
  "fr_extra (flatCompare saved current)
     = concat (map (\<lambda>k. replicate (key_count current k - key_count saved k) (representative current k))
                 (first_occurrences (map canonicalize current)))"
  by (simp add: flatCompare_def Let_def push_surplus_buildMultiset)

lemma representative_key:
  "k \<in> set (map canonicalize arr) \<Longrightarrow> canonicalize (representative arr k) = k"
proof -
  assume "k \<in> set (map canonicalize arr)"
  then have "find (\<lambda>item. canonicalize item = k) arr \<noteq> None"
    by (auto simp: find_None_iff)
  then obtain item where f: "find (\<lambda>item. canonicalize item = k) arr = Some item" by auto
  from find_SomeD[OF f] f show ?thesis by (simp add: representative_def)
qed

lemma filter_key_surplus:
  assumes "distinct ks" "set ks \<subseteq> set (map canonicalize arr)"
  shows "filter (\<lambda>r. canonicalize r = k)
           (concat (map (\<lambda>k'. replicate (n k') (representative arr k')) ks))
         = (if k \<in> set ks then replicate (n k) (representative arr k) else [])"
  using assms
proof (induction ks)
  case Nil
  show ?case by simp
next
  case (Cons a ks)
  then have ak: "canonicalize (representative arr a) = a"
    by (intro representative_key) auto
  from Cons have IH: "filter (\<lambda>r. canonicalize r = k)
           (concat (map (\<lambda>k'. replicate (n k') (representative arr k')) ks))
         = (if k \<in> set ks then replicate (n k) (representative arr k) else [])"
    by auto
  show ?case
  proof (cases "k = a")
    case True
    with Cons.prems have "k \<notin> set ks" by simp
    with True ak IH show ?thesis by simp
  next
    case False
    with ak IH show ?thesis by auto
  qed
qed

lemma key_count_absent: "k \<notin> set (map canonicalize arr) \<Longrightarrow> key_count arr k = 0"
  by (simp add: key_count_def count_list_0_iff)

lemma missing_per_key:
  "filter (\<lambda>r. canonicalize r = k) (fr_missing (flatCompare saved current))
     = replicate (key_count saved k - key_count current k) (representative saved k)"
proof -
  have "filter (\<lambda>r. canonicalize r = k) (fr_missing (flatCompare saved current))
        = (if k \<in> set (first_occurrences (map canonicalize saved))
           then replicate (key_count saved k - key_count current k) (representative saved k) else [])"
    unfolding missing_eq by (rule filter_key_surplus) simp_all
  then show ?thesis by (auto simp: key_count_absent)
qed

lemma extra_per_key:
  "filter (\<lambda>r. canonicalize r = k) (fr_extra (flatCompare saved current))
     = replicate (key_count current k - key_count saved k) (representative current k)"
proof -
  have "filter (\<lambda>r. canonicalize r = k) (fr_extra (flatCompare saved current))
        = (if k \<in> set (first_occurrences (map canonicalize current))
           then replicate (key_count current k - key_count saved k) (representative current k) else [])"
    unfolding extra_eq by (rule filter_key_surplus) simp_all
  then show ?thesis by (auto simp: key_count_absent)
qed

lemma summary_eq:
  "fs_missing (fr_summary (flatCompare saved current)) = length (fr_missing (flatCompare saved current))"
  "fs_extra (fr_summary (flatCompare saved current)) = length (fr_extra (flatCompare saved current))"
  by (simp_all add: flatCompare_def Let_def)

lemma nat_max_diff: "nat (max 0 (int a - int b)) = a - b"
  by simp

lemma sample_lookups_counts:
  "key_count sample_lookups sample_key_a = 2"
  "key_count sample_lookups_current sample_key_a = 1"
  "representative sample_lookups sample_key_a = JObj [(''k'', JStr ''a''), (''v'', JNum 1)]"
  "key_count sample_lookups sample_key_c = 0"
  "key_count sample_lookups_current sample_key_c = 2"
  "representative sample_lookups_current sample_key_c = JObj [(''k'', JStr ''c'')]"
  by code_simp+

lemma sample_key_a_other:
  "canonicalize (JObj [(''v'', JNum 1), (''k'', JStr ''a'')]) = sample_key_a"
  by code_simp

section \<open>Totals are preserved by the loops of the engine\<close>

lemma set_parent_total [simp]: "sec_totalDifferences (set_parent p l sec) = sec_totalDifferences sec"
  by (cases sec) simp_all

lemma set_parent_consistent [simp]: "totals_consistent (set_parent p l sec) = totals_consistent sec"
  by (cases sec) simp_all

lemma entityCompare_summary:
  assumes "entityCompare s c f ex = Inr r"
  shows "es_missing (res_summary r) = length (res_missing r)"
    "es_extra (res_summary r) = length (res_extra r)"
    "es_changed (res_summary r) = length (filter (\<lambda>m. me_differences m \<noteq> []) (res_matched r))"
    "es_inSync (res_summary r) = length (filter (\<lambda>m. me_differences m = []) (res_matched r))"
  using assms by (auto simp: entityCompare_eq entity_result_of_def Let_def split: if_splits)

lemma configs_loop_totals:
  assumes "\<And>ch s c sec. ch \<in> set chs \<Longrightarrow> compareSection ch s c = Inr sec \<Longrightarrow> totals_consistent sec"
    and "totals_inv st"
    and "compareChildren_configs chs label pid sp cp st = Inr st'"
  shows "totals_inv st'"
  using assms
proof (induction chs arbitrary: st)
  case Nil
  then show ?case by simp
next
  case (Cons ch chs)
  obtain secs t where st: "st = (secs, t)" by (cases st)
  from Cons.prems(3) obtain sv cv sec where
      sec: "compareSection ch (or_else sv (Data (JArr []))) (or_else cv (Data (JArr []))) = Inr sec"
    and rest: "compareChildren_configs chs label pid sp cp
                 (secs @ [set_parent pid label sec], t + sec_totalDifferences sec) = Inr st'"
    unfolding st by (auto split: sum.splits)
  from Cons.prems(1)[OF _ sec] have "totals_consistent sec" by simp
  with Cons.prems(2) have inv: "totals_inv (secs @ [set_parent pid label sec], t + sec_totalDifferences sec)"
    unfolding st by (simp add: totals_inv_def)
  have hyp: "ch' \<in> set chs \<Longrightarrow> compareSection ch' s c = Inr sec \<Longrightarrow> totals_consistent sec"
    for ch' s c sec
    using Cons.prems(1)[of ch' s c sec] by simp
  from Cons.IH[OF hyp inv rest] show ?case .
qed

lemma parents_loop_totals:
  assumes "\<And>ch s c sec. ch \<in> set chs \<Longrightarrow> compareSection ch s c = Inr sec \<Longrightarrow> totals_consistent sec"
    and "totals_inv st"
    and "compareChildren_parents chs label ms si ci st = Inr st'"
  shows "totals_inv st'"
  using assms
proof (induction ms arbitrary: st)
  case Nil
  then show ?case by simp
next
  case (Cons m ms)
  from Cons.prems(3) obtain st1 where
      a: "compareChildren_configs chs label (me_id m)
            (item_or_else (map_of si (me_id m)) (JObj [])) (item_or_else (map_of ci (me_id m)) (JObj [])) st = Inr st1"
    and b: "compareChildren_parents chs label ms si ci st1 = Inr st'"
    by (auto simp: Let_def split: sum.splits)
  from configs_loop_totals[OF Cons.prems(1) Cons.prems(2) a] have "totals_inv st1" by simp
  from Cons.IH[OF Cons.prems(1) this b] show ?case by simp
qed

lemma compareSection_totals:
  "compareSection cfg s c = Inr sec \<Longrightarrow> totals_consistent sec"
proof (induction cfg arbitrary: s c sec)
  case (Config key label strat idField children)
  show ?case
  proof (cases "strat = Flat")
    case True
    with Config.prems show ?thesis
      by (auto simp: buildFlatSection_def Let_def summary_eq split: sum.splits)
  next
    case False
    from Config.prems False obtain ss cs r where
        ss: "js_iter s = Inr ss" and cs: "js_iter c = Inr cs"
      and r: "entityCompare ss cs (idField_or_default idField)
                (getChildKeys (Config key label strat idField children)) = Inr r"
      by (auto split: sum.splits)
    note sm = entityCompare_summary[OF r]
    show ?thesis
    proof (cases "children = []")
      case True
      with Config.prems False ss cs r sm show ?thesis by (auto simp: Let_def)
    next
      case ne: False
      from Config.prems False ss cs r ne obtain secs t where
          ch: "compareChildren (Config key label strat idField children) r s c = Inr (secs, t)"
        and sec: "sec = EntitySection key label (res_summary r) (res_missing r) (res_extra r)
                    (res_matched r) (Some secs)
                    (es_missing (res_summary r) + es_extra (res_summary r)
                      + es_changed (res_summary r) + t) None None"
        by (auto simp: Let_def split: sum.splits)
      from ch obtain si ci where
          loop: "compareChildren_parents children label (res_matched r) si ci ([], 0) = Inr (secs, t)"
        by (auto split: sum.splits)
      have "totals_inv ([], 0)" by (simp add: totals_inv_def)
      from parents_loop_totals[OF _ this loop] Config.IH
      have "totals_inv (secs, t)" by blast
      with sec sm show ?thesis by (simp add: totals_inv_def)
    qed
  qed
qed

lemma compare_loop_totals:
  assumes "totals_inv st" "compare_loop cfgs saved current st = Inr st'"
  shows "totals_inv st'"
  using assms
proof (induction cfgs arbitrary: st)
  case Nil
  then show ?case by simp
next
  case (Cons cfg cfgs)
  obtain secs t where st: "st = (secs, t)" by (cases st)
  from Cons.prems(2) obtain sv cv sec where
      sec: "compareSection cfg (or_else sv (Data (JArr []))) (or_else cv (Data (JArr []))) = Inr sec"
    and rest: "compare_loop cfgs saved current (secs @ [sec], t + sec_totalDifferences sec) = Inr st'"
    unfolding st by (auto split: sum.splits)
  from compareSection_totals[OF sec] Cons.prems(1)
  have "totals_inv (secs @ [sec], t + sec_totalDifferences sec)"
    unfolding st by (simp add: totals_inv_def)
  from Cons.IH[OF this rest] show ?case .
qed

lemma totals_consistent_parts:
  assumes "totals_consistent sec"
  shows "sec_totalDifferences sec
       = direct_differences sec + sum_list (map sec_totalDifferences (child_sections sec))"
    and "list_all totals_consistent (child_sections sec)"
  using assms by (cases sec; auto split: option.splits)+

lemma compare_totals:
  assumes "compare now saved current = Inr rep"
  shows "report_totalDifferences rep = sum_list (map sec_totalDifferences (report_sections rep))"
    and "list_all totals_consistent (report_sections rep)"
proof -
  from assms obtain secs t where l: "compare_loop registry saved current ([], 0) = Inr (secs, t)"
    and rep: "rep = \<lparr>report_timestamp = now, report_totalDifferences = t, report_sections = secs\<rparr>"
    by (auto simp: compare_def split: sum.splits)
  have "totals_inv ([], 0)" by (simp add: totals_inv_def)
  from compare_loop_totals[OF this l] have "totals_inv (secs, t)" .
  with rep show "report_totalDifferences rep = sum_list (map sec_totalDifferences (report_sections rep))"
    and "list_all totals_consistent (report_sections rep)"
    by (simp_all add: totals_inv_def)
qed

lemma sample_namespaces_run:
  "compareSection namespaces_config (Data (JArr sample_namespaces_saved))
     (Data (JArr sample_namespaces_current))
     = Inr sample_namespaces_section"
  by code_simp

lemma sample_compare_run:
  "compare ''t'' sample_snapshot_saved sample_snapshot_current
     = Inr (projr (compare ''t'' sample_snapshot_saved sample_snapshot_current))"
  "report_totalDifferences (projr (compare ''t'' sample_snapshot_saved sample_snapshot_current)) = 2"
  "map sec_totalDifferences
     (report_sections (projr (compare ''t'' sample_snapshot_saved sample_snapshot_current)))
     = [0, 0, 0, 0, 1, 0, 0, 0, 1]"
  "map sec_key
     (report_sections (projr (compare ''t'' sample_snapshot_saved sample_snapshot_current)))
     = map cfg_key registry"
  by code_simp+

section \<open>The engine on well-formed collections\<close>

lemma wf_collection_empty [simp]: "wf_collection cfg (JArr [])"
  by (cases cfg) simp

lemma wf_collection_array:
  "wf_collection cfg v \<Longrightarrow>
     \<exists>items. v = JArr items
        \<and> list_all (wf_record (cfg_strategy cfg) (cfg_idField cfg) (cfg_children cfg)) items"
  by (cases cfg; cases v) (auto simp: wf_record_def child_ok_def list_all_iff split: jvalue.splits)

lemma wf_record_is_record: "wf_record strat idField chs item \<Longrightarrow> is_record item"
  by (cases item) (auto simp: wf_record_def)

lemma wf_record_prints:
  "wf_record Entity idField chs item \<Longrightarrow>
     id_prints (idField_or_default idField) item \<and> id_prints (idField_as_key idField) item"
  by (cases item) (auto simp: wf_record_def ids_print_def)

lemma or_else_array [simp]: "or_else (Some (Data (JArr xs))) d = Data (JArr xs)"
  by (simp add: or_else_def)

lemma or_else_None [simp]: "or_else None d = d"
  by (simp add: or_else_def)

lemma item_or_else_record [simp]: "item_or_else (Some (JObj kvs)) d = JObj kvs"
  by (simp add: item_or_else_def)

lemma item_or_else_None [simp]: "item_or_else None d = d"
  by (simp add: item_or_else_def)

lemma collection_at_record:
  "collection_at (JObj kvs) k =
     (case map_of kvs k of
        Some x \<Rightarrow> or_else (Some (Data x)) (Data (JArr []))
      | None \<Rightarrow> or_else (map_option Builtin (inherited ObjectClass k)) (Data (JArr [])))"
  by (simp add: collection_at_def js_get_record split: option.splits)

text \<open>What the engine reads under the key of a child descriptor, in a record that is well
  formed for it, is a collection for the descriptor.\<close>

lemma plain_keys_key: "plain_keys ch \<Longrightarrow> inherited ObjectClass (cfg_key ch) = None"
  by (cases ch) simp

lemma plain_keys_children: "plain_keys ch \<Longrightarrow> list_all plain_keys (cfg_children ch)"
  by (cases ch) simp

lemma child_ok_Nil [simp]: "child_ok [] ch"
  by (simp add: child_ok_def)

lemma collection_child_ok:
  assumes "child_ok kvs ch" and "plain_keys ch"
  shows "\<exists>v. collection_at (JObj kvs) (cfg_key ch) = Data v \<and> wf_collection ch v"
proof (cases "map_of kvs (cfg_key ch)")
  case None
  with plain_keys_key[OF assms(2)] show ?thesis by (simp add: collection_at_record)
next
  case (Some v)
  with assms have w: "wf_collection ch v" by (simp add: child_ok_def)
  then obtain items where "v = JArr items" using wf_collection_array by blast
  with w Some show ?thesis by (simp add: collection_at_record)
qed

lemma compareChildren_configs_step:
  "compareChildren_configs (ch # rest) label pid (JObj sp) (JObj cp) (secs, t) =
     (case compareSection ch (collection_at (JObj sp) (cfg_key ch))
             (collection_at (JObj cp) (cfg_key ch)) of
        Inl e \<Rightarrow> Inl e
      | Inr child \<Rightarrow>
          compareChildren_configs rest label pid (JObj sp) (JObj cp)
            (secs @ [set_parent pid label child], t + sec_totalDifferences child))"
  by (simp add: collection_at_def js_get_record)

lemma configs_loop_wf:
  assumes "\<And>ch s c. ch \<in> set chs \<Longrightarrow> wf_collection ch s \<Longrightarrow> wf_collection ch c
             \<Longrightarrow> \<exists>sec. compareSection ch (Data s) (Data c) = Inr sec"
    and "list_all (child_ok sp) chs" and "list_all (child_ok cp) chs"
    and "list_all plain_keys chs"
  shows "\<exists>news. compareChildren_configs chs label pid (JObj sp) (JObj cp) (secs0, t0)
                   = Inr (secs0 @ news, t0 + sum_list (map sec_totalDifferences news))
               \<and> list_all2 (child_section_of label sp cp pid) chs news"
  using assms
proof (induction chs arbitrary: secs0 t0)
  case Nil
  show ?case by simp
next
  case (Cons ch chs)
  from Cons.prems(2,3,4) have ok: "child_ok sp ch" "child_ok cp ch" and pk: "plain_keys ch"
    and rest: "list_all (child_ok sp) chs" "list_all (child_ok cp) chs" "list_all plain_keys chs"
    by simp_all
  from collection_child_ok[OF ok(1) pk] collection_child_ok[OF ok(2) pk]
  obtain sv cv where sv: "collection_at (JObj sp) (cfg_key ch) = Data sv" "wf_collection ch sv"
    and cv: "collection_at (JObj cp) (cfg_key ch) = Data cv" "wf_collection ch cv"
    by blast
  from Cons.prems(1)[OF _ sv(2) cv(2)]
  obtain child where child: "compareSection ch (collection_at (JObj sp) (cfg_key ch))
                               (collection_at (JObj cp) (cfg_key ch)) = Inr child"
    unfolding sv(1) cv(1) by auto
  have hyp: "ch' \<in> set chs \<Longrightarrow> wf_collection ch' s \<Longrightarrow> wf_collection ch' c
             \<Longrightarrow> \<exists>sec. compareSection ch' (Data s) (Data c) = Inr sec" for ch' s c
    using Cons.prems(1)[of ch' s c] by simp
  from Cons.IH[OF hyp rest, of "secs0 @ [set_parent pid label child]" "t0 + sec_totalDifferences child"]
  obtain news where
      run: "compareChildren_configs chs label pid (JObj sp) (JObj cp)
              (secs0 @ [set_parent pid label child], t0 + sec_totalDifferences child)
            = Inr ((secs0 @ [set_parent pid label child]) @ news,
                   t0 + sec_totalDifferences child + sum_list (map sec_totalDifferences news))"
    and l2: "list_all2 (child_section_of label sp cp pid) chs news"
    by blast
  have "compareChildren_configs (ch # chs) label pid (JObj sp) (JObj cp) (secs0, t0)
          = Inr (secs0 @ (set_parent pid label child # news),
                 t0 + sum_list (map sec_totalDifferences (set_parent pid label child # news)))"
    unfolding compareChildren_configs_step using child run by (simp add: add.assoc)
  moreover have "list_all2 (child_section_of label sp cp pid) (ch # chs) (set_parent pid label child # news)"
    using l2 child by (simp add: child_section_of_def)
  ultimately show ?case by blast
qed


lemma parent_props_ok:
  assumes "\<forall>p\<in>set idx. wf_record strat idField chs (snd p)"
  shows "list_all (child_ok (parent_props idx pid)) chs"
    and "item_or_else (map_of idx pid) (JObj []) = JObj (parent_props idx pid)"
proof -
  show "list_all (child_ok (parent_props idx pid)) chs"
  proof (cases "map_of idx pid")
    case None
    then show ?thesis by (simp add: parent_props_def list_all_iff)
  next
    case (Some e)
    then have "(pid, e) \<in> set idx" by (rule map_of_SomeD)
    with assms have "wf_record strat idField chs e" by force
    with Some show ?thesis by (cases e) (auto simp: parent_props_def wf_record_def)
  qed
  show "item_or_else (map_of idx pid) (JObj []) = JObj (parent_props idx pid)"
  proof (cases "map_of idx pid")
    case None
    then show ?thesis by (simp add: parent_props_def)
  next
    case (Some e)
    then have "(pid, e) \<in> set idx" by (rule map_of_SomeD)
    with assms have "wf_record strat idField chs e" by force
    with Some show ?thesis by (cases e) (auto simp: parent_props_def wf_record_def)
  qed
qed

lemma product_Cons: "List.product (m # ms) chs = map (Pair m) chs @ List.product ms chs"
  by simp

lemma list_all2_map_Pair:
  "list_all2 (\<lambda>p sec. P (fst p) (snd p) sec) (map (Pair m) chs) news
     \<longleftrightarrow> list_all2 (P m) chs news"
  by (simp add: list_all2_map1)

lemma parents_loop_wf:
  assumes "\<And>ch s c. ch \<in> set chs \<Longrightarrow> wf_collection ch s \<Longrightarrow> wf_collection ch c
             \<Longrightarrow> \<exists>sec. compareSection ch (Data s) (Data c) = Inr sec"
    and "\<forall>p\<in>set si. wf_record strat idField chs (snd p)"
    and "\<forall>p\<in>set ci. wf_record strat idField chs (snd p)"
    and "list_all plain_keys chs"
  shows "\<exists>news. compareChildren_parents chs label ms si ci (secs0, t0)
                   = Inr (secs0 @ news, t0 + sum_list (map sec_totalDifferences news))
               \<and> list_all2 (\<lambda>p sec. child_section_of label (parent_props si (me_id (fst p)))
                                        (parent_props ci (me_id (fst p))) (me_id (fst p)) (snd p) sec)
                            (List.product ms chs) news"
proof (induction ms arbitrary: secs0 t0)
  case Nil
  show ?case by simp
next
  case (Cons m ms)
  let ?sp = "parent_props si (me_id m)" and ?cp = "parent_props ci (me_id m)"
  note s = parent_props_ok[OF assms(2), of "me_id m"]
  note c = parent_props_ok[OF assms(3), of "me_id m"]
  from configs_loop_wf[OF assms(1) s(1) c(1) assms(4), of label "me_id m" secs0 t0]
  obtain n1 where
      r1: "compareChildren_configs chs label (me_id m) (JObj ?sp) (JObj ?cp) (secs0, t0)
             = Inr (secs0 @ n1, t0 + sum_list (map sec_totalDifferences n1))"
    and l1: "list_all2 (child_section_of label ?sp ?cp (me_id m)) chs n1"
    by blast
  from Cons.IH[of "secs0 @ n1" "t0 + sum_list (map sec_totalDifferences n1)"]
  obtain n2 where
      r2: "compareChildren_parents chs label ms si ci
             (secs0 @ n1, t0 + sum_list (map sec_totalDifferences n1))
           = Inr ((secs0 @ n1) @ n2,
                  t0 + sum_list (map sec_totalDifferences n1) + sum_list (map sec_totalDifferences n2))"
    and l2: "list_all2 (\<lambda>p sec. child_section_of label (parent_props si (me_id (fst p)))
                                        (parent_props ci (me_id (fst p))) (me_id (fst p)) (snd p) sec)
                            (List.product ms chs) n2"
    by blast
  have run: "compareChildren_parents chs label (m # ms) si ci (secs0, t0)
          = Inr (secs0 @ (n1 @ n2), t0 + sum_list (map sec_totalDifferences (n1 @ n2)))"
    using r1 r2 by (simp add: Let_def s(2) c(2) add.assoc)
  have l1': "list_all2 (\<lambda>p sec. child_section_of label (parent_props si (me_id (fst p)))
                                        (parent_props ci (me_id (fst p))) (me_id (fst p)) (snd p) sec)
            (map (Pair m) chs) n1"
    using l1 by (simp add: list_all2_map1)
  from l1' l2 have "list_all2 (\<lambda>p sec. child_section_of label (parent_props si (me_id (fst p)))
                                        (parent_props ci (me_id (fst p))) (me_id (fst p)) (snd p) sec)
            (List.product (m # ms) chs) (n1 @ n2)"
    unfolding product_Cons by (rule list_all2_appendI)
  with run show ?case by blast
qed

lemma indexBy_records:
  "list_all is_record arr \<Longrightarrow> list_all (id_prints f) arr \<Longrightarrow> indexBy arr f = Inr (index_of f arr)"
  by (simp add: indexBy_def index_of_def indexById_loop_ok records_not_null)

lemma index_of_wf_records:
  assumes "list_all (wf_record strat idField chs) arr"
  shows "\<forall>p\<in>set (index_of f arr). wf_record strat idField chs (snd p)"
proof
  fix p assume "p \<in> set (index_of f arr)"
  then have "snd p \<in> set arr" using index_of_member(2)[of "fst p" "snd p" f arr] by simp
  with assms show "wf_record strat idField chs (snd p)" by (simp add: list_all_iff)
qed

lemma wf_records_are_records:
  "list_all (wf_record strat idField chs) arr \<Longrightarrow> list_all is_record arr"
  by (auto simp: list_all_iff dest: wf_record_is_record)

lemma wf_records_print:
  assumes "list_all (wf_record Entity idField chs) arr"
  shows "list_all (id_prints (idField_or_default idField)) arr"
    and "list_all (id_prints (idField_as_key idField)) arr"
  using assms by (auto simp: list_all_iff dest: wf_record_prints)

lemma getChildKeys_eq: "getChildKeys cfg = map cfg_key (cfg_children cfg)"
  by (simp add: getChildKeys_def)

lemma flat_section_run:
  "compareSection (Config key label Flat idField children) (Data (JArr s)) (Data (JArr c))
     = Inr (FlatSection key label (fr_summary (flatCompare s c)) (fr_missing (flatCompare s c))
              (fr_extra (flatCompare s c))
              (fs_missing (fr_summary (flatCompare s c)) + fs_extra (fr_summary (flatCompare s c)))
              None None)"
  by (simp add: buildFlatSection_def Let_def)

text \<open>The run of \<^verbatim>\<open>compareSection\<close> on an entity entry with two collections of records.\<close>

lemma entity_section_run:
  assumes ih: "\<And>ch s c. ch \<in> set children \<Longrightarrow> wf_collection ch s \<Longrightarrow> wf_collection ch c
             \<Longrightarrow> \<exists>sec. compareSection ch (Data s) (Data c) = Inr sec"
    and s: "list_all (wf_record Entity idField children) saved"
    and c: "list_all (wf_record Entity idField children) current"
    and pk: "list_all plain_keys children"
  shows "\<exists>secs.
      compareSection (Config key label Entity idField children)
          (Data (JArr saved)) (Data (JArr current))
        = Inr (EntitySection key label
                 (res_summary (entity_result_of (index_of (idField_or_default idField) saved)
                    (index_of (idField_or_default idField) current) (idField_or_default idField)
                    (map cfg_key children)))
                 (res_missing (entity_result_of (index_of (idField_or_default idField) saved)
                    (index_of (idField_or_default idField) current) (idField_or_default idField)
                    (map cfg_key children)))
                 (res_extra (entity_result_of (index_of (idField_or_default idField) saved)
                    (index_of (idField_or_default idField) current) (idField_or_default idField)
                    (map cfg_key children)))
                 (res_matched (entity_result_of (index_of (idField_or_default idField) saved)
                    (index_of (idField_or_default idField) current) (idField_or_default idField)
                    (map cfg_key children)))
                 (if children = [] then None else Some secs)
                 (es_missing (res_summary (entity_result_of (index_of (idField_or_default idField) saved)
                    (index_of (idField_or_default idField) current) (idField_or_default idField)
                    (map cfg_key children)))
                  + es_extra (res_summary (entity_result_of (index_of (idField_or_default idField) saved)
                    (index_of (idField_or_default idField) current) (idField_or_default idField)
                    (map cfg_key children)))
                  + es_changed (res_summary (entity_result_of (index_of (idField_or_default idField) saved)
                    (index_of (idField_or_default idField) current) (idField_or_default idField)
                    (map cfg_key children)))
                  + (if children = [] then 0 else sum_list (map sec_totalDifferences secs)))
                 None None)
    \<and> list_all2 (\<lambda>p sec. child_section_of label
                    (parent_props (index_of (idField_as_key idField) saved) (me_id (fst p)))
                    (parent_props (index_of (idField_as_key idField) current) (me_id (fst p)))
                    (me_id (fst p)) (snd p) sec)
         (List.product
            (res_matched (entity_result_of (index_of (idField_or_default idField) saved)
                    (index_of (idField_or_default idField) current) (idField_or_default idField)
                    (map cfg_key children)))
            children) secs"
proof -
  let ?f = "idField_or_default idField"
  let ?r = "entity_result_of (index_of ?f saved) (index_of ?f current) ?f (map cfg_key children)"
  have rs: "list_all is_record saved" and rc: "list_all is_record current"
    using s c by (simp_all add: wf_records_are_records)
  note ps = wf_records_print[OF s] and pc = wf_records_print[OF c]
  have ec: "entityCompare saved current ?f (getChildKeys (Config key label Entity idField children))
              = Inr ?r"
    using entityCompare_records[OF rs rc ps(1) pc(1)] by (simp add: getChildKeys_eq)
  from parents_loop_wf[OF ih index_of_wf_records[OF s] index_of_wf_records[OF c] pk,
      of label "res_matched ?r" "idField_as_key idField" "idField_as_key idField" "[]" 0]
  obtain secs where
      loop: "compareChildren_parents children label (res_matched ?r)
               (index_of (idField_as_key idField) saved) (index_of (idField_as_key idField) current)
               ([], 0) = Inr (secs, sum_list (map sec_totalDifferences secs))"
    and l2: "list_all2 (\<lambda>p sec. child_section_of label
                    (parent_props (index_of (idField_as_key idField) saved) (me_id (fst p)))
                    (parent_props (index_of (idField_as_key idField) current) (me_id (fst p)))
                    (me_id (fst p)) (snd p) sec)
         (List.product (res_matched ?r) children) secs"
    by auto
  have ch: "compareChildren (Config key label Entity idField children) ?r
                (Data (JArr saved)) (Data (JArr current))
              = Inr (secs, sum_list (map sec_totalDifferences secs))"
    using loop by (simp add: indexBy_records rs rc ps(2) pc(2))
  have "compareSection (Config key label Entity idField children)
            (Data (JArr saved)) (Data (JArr current))
        = Inr (EntitySection key label (res_summary ?r) (res_missing ?r) (res_extra ?r)
                 (res_matched ?r) (if children = [] then None else Some secs)
                 (es_missing (res_summary ?r) + es_extra (res_summary ?r) + es_changed (res_summary ?r)
                  + (if children = [] then 0 else sum_list (map sec_totalDifferences secs)))
                 None None)"
    using ec ch by (simp add: Let_def)
  with l2 show ?thesis by blast
qed

lemma compareSection_wf:
  "plain_keys cfg \<Longrightarrow> wf_collection cfg s \<Longrightarrow> wf_collection cfg c
     \<Longrightarrow> \<exists>sec. compareSection cfg (Data s) (Data c) = Inr sec"
proof (induction cfg arbitrary: s c)
  case (Config key label strat idField children)
  from wf_collection_array[OF Config.prems(2)] wf_collection_array[OF Config.prems(3)]
  obtain saved current where s: "s = JArr saved" "list_all (wf_record strat idField children) saved"
    and c: "c = JArr current" "list_all (wf_record strat idField children) current" by auto
  from Config.prems(1) have pk: "list_all plain_keys children" by simp
  show ?case
  proof (cases strat)
    case Flat
    then show ?thesis unfolding s c by (simp only: flat_section_run) blast
  next
    case Entity
    have ih: "ch \<in> set children \<Longrightarrow> wf_collection ch s' \<Longrightarrow> wf_collection ch c'
             \<Longrightarrow> \<exists>sec. compareSection ch (Data s') (Data c') = Inr sec" for ch s' c'
      using Config.IH pk by (auto simp: list_all_iff)
    from entity_section_run[OF ih s(2)[unfolded Entity] c(2)[unfolded Entity] pk, of key label]
    show ?thesis unfolding s c Entity by blast
  qed
qed

lemma set_parent_fields [simp]:
  "sec_parentId (set_parent p l sec) = Some p"
  "sec_parentLabel (set_parent p l sec) = Some l"
  "sec_key (set_parent p l sec) = sec_key sec"
  by (cases sec; simp)+

lemma compareSection_key:
  "compareSection cfg s c = Inr sec \<Longrightarrow> sec_key sec = cfg_key cfg \<and> sec_label sec = cfg_label cfg"
  by (cases cfg) (auto simp: buildFlatSection_def Let_def split: sum.splits if_splits)

lemma compareSection_empty:
  "compareSection cfg (Data (JArr [])) (Data (JArr [])) = Inr sec \<Longrightarrow> sec_totalDifferences sec = 0"
  by (cases cfg)
     (auto simp: buildFlatSection_def flatCompare_def buildMultiset_def entityCompare_def
        indexById_def indexBy_def Let_def split: if_splits)

lemma collection_at_absent_or_empty:
  "absent_or_empty root k \<Longrightarrow> collection_at root k = Data (JArr [])"
  by (cases root) (auto simp: absent_or_empty_def collection_at_def)

lemma collection_at_wf:
  assumes w: "wf_snapshot_for cfgs root" and m: "cfg \<in> set cfgs" and pk: "plain_keys cfg"
  shows "\<exists>v. collection_at root (cfg_key cfg) = Data v \<and> wf_collection cfg v"
proof -
  from w obtain kvs where r: "root = JObj kvs" by (cases root) (auto simp: wf_snapshot_for_def)
  from w m r have "child_ok kvs cfg"
    by (auto simp: wf_snapshot_for_def list_all_iff child_ok_def)
  from collection_child_ok[OF this pk] r show ?thesis by simp
qed

lemma compare_loop_step:
  "compare_loop (cfg # rest) (JObj s) (JObj c) (secs, t) =
     (case compareSection cfg (collection_at (JObj s) (cfg_key cfg))
             (collection_at (JObj c) (cfg_key cfg)) of
        Inl e \<Rightarrow> Inl e
      | Inr sec \<Rightarrow> compare_loop rest (JObj s) (JObj c) (secs @ [sec], t + sec_totalDifferences sec))"
  by (simp add: collection_at_def js_get_record)

lemma compare_loop_wf:
  assumes "wf_snapshot_for cfgs (JObj s)" "wf_snapshot_for cfgs (JObj c)"
    and "list_all plain_keys cfgs"
  shows "\<exists>news. compare_loop cfgs (JObj s) (JObj c) (secs0, t0)
                   = Inr (secs0 @ news, t0 + sum_list (map sec_totalDifferences news))
               \<and> list_all2 (\<lambda>cfg sec. compareSection cfg (collection_at (JObj s) (cfg_key cfg))
                                          (collection_at (JObj c) (cfg_key cfg)) = Inr sec) cfgs news"
  using assms
proof (induction cfgs arbitrary: secs0 t0)
  case Nil
  show ?case by simp
next
  case (Cons cfg cfgs)
  from Cons.prems have rest: "wf_snapshot_for cfgs (JObj s)" "wf_snapshot_for cfgs (JObj c)"
      "list_all plain_keys cfgs" and pk: "plain_keys cfg"
    by (simp_all add: wf_snapshot_for_def)
  from collection_at_wf[OF Cons.prems(1) _ pk] collection_at_wf[OF Cons.prems(2) _ pk]
  obtain sv cv where sv: "collection_at (JObj s) (cfg_key cfg) = Data sv" "wf_collection cfg sv"
    and cv: "collection_at (JObj c) (cfg_key cfg) = Data cv" "wf_collection cfg cv"
    by auto
  from compareSection_wf[OF pk sv(2) cv(2)]
  obtain sec where sec: "compareSection cfg (collection_at (JObj s) (cfg_key cfg))
                                          (collection_at (JObj c) (cfg_key cfg)) = Inr sec"
    unfolding sv(1) cv(1) by auto
  from Cons.IH[OF rest, of "secs0 @ [sec]" "t0 + sec_totalDifferences sec"]
  obtain news where
      run: "compare_loop cfgs (JObj s) (JObj c) (secs0 @ [sec], t0 + sec_totalDifferences sec)
            = Inr ((secs0 @ [sec]) @ news,
                   t0 + sec_totalDifferences sec + sum_list (map sec_totalDifferences news))"
    and l2: "list_all2 (\<lambda>cfg sec. compareSection cfg (collection_at (JObj s) (cfg_key cfg))
                                          (collection_at (JObj c) (cfg_key cfg)) = Inr sec) cfgs news"
    by blast
  have "compare_loop (cfg # cfgs) (JObj s) (JObj c) (secs0, t0)
          = Inr (secs0 @ (sec # news), t0 + sum_list (map sec_totalDifferences (sec # news)))"
    unfolding compare_loop_step using sec run by (simp add: add.assoc)
  moreover have "list_all2 (\<lambda>cfg sec. compareSection cfg (collection_at (JObj s) (cfg_key cfg))
                                          (collection_at (JObj c) (cfg_key cfg)) = Inr sec)
                   (cfg # cfgs) (sec # news)"
    using sec l2 by simp
  ultimately show ?case by blast
qed

lemma compare_loop_cong:
  assumes "\<And>k. collection_at (JObj s') k = collection_at (JObj s) k"
    and "\<And>k. collection_at (JObj c') k = collection_at (JObj c) k"
  shows "compare_loop cfgs (JObj s') (JObj c') st = compare_loop cfgs (JObj s) (JObj c) st"
proof (induction cfgs arbitrary: st)
  case Nil
  show ?case by simp
next
  case (Cons cfg cfgs)
  obtain secs t where st: "st = (secs, t)" by (cases st)
  show ?case unfolding st compare_loop_step assms
    by (simp add: Cons.IH split: sum.splits)
qed

lemma collection_at_with_empty:
  "key_absent root k \<Longrightarrow> collection_at (with_empty k root) k' = collection_at root k'"
  by (cases root)
     (auto simp: key_absent_def with_empty_def collection_at_record js_get_record map_add_def
        split: option.splits)

lemma with_empty_record: "key_absent root k \<Longrightarrow> \<exists>kvs kvs'. root = JObj kvs \<and> with_empty k root = JObj kvs'"
  by (cases root) (auto simp: key_absent_def with_empty_def)

lemma compare_with_empty:
  assumes "key_absent saved k" "current = JObj c"
  shows "compare now (with_empty k saved) current = compare now saved current"
    and "compare now current (with_empty k saved) = compare now current saved"
proof -
  from with_empty_record[OF assms(1)] obtain kvs kvs' where
    r: "saved = JObj kvs" "with_empty k saved = JObj kvs'" by blast
  have eq: "collection_at (JObj kvs') k' = collection_at (JObj kvs) k'" for k'
    using collection_at_with_empty[OF assms(1), of k'] r by simp
  have l1: "compare_loop registry (with_empty k saved) (JObj c) st
            = compare_loop registry saved (JObj c) st" for st
    unfolding r(2) unfolding r(1) by (rule compare_loop_cong[OF eq refl])
  have l2: "compare_loop registry (JObj c) (with_empty k saved) st
            = compare_loop registry (JObj c) saved st" for st
    unfolding r(2) unfolding r(1) by (rule compare_loop_cong[OF refl eq])
  show "compare now (with_empty k saved) current = compare now saved current"
    by (simp only: compare_def assms(2) l1)
  show "compare now current (with_empty k saved) = compare now current saved"
    by (simp only: compare_def assms(2) l2)
qed

lemma sample_snapshots_wf: "wf_snapshot sample_snapshot_saved" "wf_snapshot sample_snapshot_current"
  by code_simp+

lemma sample_roles_absent:
  "absent_or_empty sample_snapshot_saved ''roles''" "absent_or_empty sample_snapshot_current ''roles''"
  "key_absent sample_snapshot_saved ''roles''" "key_absent sample_snapshot_current ''roles''"
  by code_simp+

lemma registry_roles: "5 < length registry" "cfg_key (registry ! 5) = ''roles''"
  by (simp_all add: registry_def)

lemma list_all2_setD2:
  "list_all2 P xs ys \<Longrightarrow> y \<in> set ys \<Longrightarrow> \<exists>x\<in>set xs. P x y"
  by (induction rule: list_all2_induct) auto

lemma matched_disjoint:
  assumes "m \<in> set (res_matched (entity_result_of (index_of f saved) (index_of f current) f ex))"
  shows "me_id m \<notin> er_id ` set (res_missing (entity_result_of (index_of f saved) (index_of f current) f ex))"
    and "me_id m \<notin> er_id ` set (res_extra (entity_result_of (index_of f saved) (index_of f current) f ex))"
proof -
  let ?r = "entity_result_of (index_of f saved) (index_of f current) f ex"
  from assms have "me_id m \<in> set (map me_id (res_matched ?r))" by simp
  then have in_both: "me_id m \<in> set (ids_of f current)" "me_id m \<in> set (ids_of f saved)"
    unfolding matched_ids by simp_all
  have "me_id m \<notin> set (map er_id (res_missing ?r))" unfolding missing_ids using in_both by simp
  then show "me_id m \<notin> er_id ` set (res_missing ?r)" by simp
  have "me_id m \<notin> set (map er_id (res_extra ?r))" unfolding extra_ids using in_both by simp
  then show "me_id m \<notin> er_id ` set (res_extra ?r)" by simp
qed

lemma matched_parent_props:
  assumes rs: "list_all is_record saved" and rc: "list_all is_record current"
    and m: "m \<in> set (res_matched (entity_result_of (index_of f saved) (index_of f current) f ex))"
  shows "\<exists>sp cp. last_with_id f saved (me_id m) = Some (JObj sp)
           \<and> last_with_id f current (me_id m) = Some (JObj cp)
           \<and> parent_props (index_of f saved) (me_id m) = sp
           \<and> parent_props (index_of f current) (me_id m) = cp"
proof -
  from matched_entry_char[OF rs rc m] obtain sp cp where
    "last_with_id f saved (me_id m) = Some (JObj sp)"
    "last_with_id f current (me_id m) = Some (JObj cp)" by blast
  then show ?thesis by (simp add: parent_props_def map_of_index_of)
qed


text \<open>The sample namespaces collections are well formed for the \<^verbatim>\<open>namespaces\<close> entry.\<close>

lemma sample_namespaces_wf:
  "wf_collection namespaces_config (JArr sample_namespaces_saved)"
  "wf_collection namespaces_config (JArr sample_namespaces_current)"
  by code_simp+

lemma registry_plain_keys: "list_all plain_keys registry"
  by code_simp

section \<open>Properties of the canonical form (C5, C6)\<close>

text \<open>
  C5. \<^verbatim>\<open>canonicalize\<close> is invariant under reordering: permuting the elements of any array
  inside a value, or listing the properties of any object inside it in another order,
  leaves the canonical string unchanged.
\<close>

theorem canonicalize_reordered:
  "reordered a b \<Longrightarrow> canonicalize a = canonicalize b"
  by (rule canonicalize_reordered_aux)

text \<open>The two examples of the specification, \<^verbatim>\<open>[1,2]\<close> against \<^verbatim>\<open>[2,1]\<close> and
  \<^verbatim>\<open>{a:1,b:2}\<close> against \<^verbatim>\<open>{b:2,a:1}\<close>, and a nested one.\<close>

theorem canonicalize_reordered_witness:
  "reordered (JArr [JNum 1, JNum 2]) (JArr [JNum 2, JNum 1])
   \<and> canonicalize (JArr [JNum 1, JNum 2]) = canonicalize (JArr [JNum 2, JNum 1])
   \<and> reordered (JObj [(''a'', JNum 1), (''b'', JNum 2)]) (JObj [(''b'', JNum 2), (''a'', JNum 1)])
   \<and> canonicalize (JObj [(''a'', JNum 1), (''b'', JNum 2)])
       = canonicalize (JObj [(''b'', JNum 2), (''a'', JNum 1)])
   \<and> reordered (JObj [(''a'', JArr [JNum 1, JNum 2]), (''b'', JNull)])
                (JObj [(''b'', JNull), (''a'', JArr [JNum 2, JNum 1])])
   \<and> canonicalize (JObj [(''a'', JArr [JNum 1, JNum 2]), (''b'', JNull)])
       = canonicalize (JObj [(''b'', JNull), (''a'', JArr [JNum 2, JNum 1])])"
proof -
  have r1: "reordered (JArr [JNum 1, JNum 2]) (JArr [JNum 2, JNum 1])"
    by (rule reordered.elements[where ys = "[JNum 1, JNum 2]"])
       (simp_all add: reordered.same)
  have r2: "reordered (JObj [(''a'', JNum 1), (''b'', JNum 2)])
                      (JObj [(''b'', JNum 2), (''a'', JNum 1)])"
    by (rule reordered.properties[where kvs' = "[(''a'', JNum 1), (''b'', JNum 2)]"])
       (simp_all add: reordered.same)
  have r3: "reordered (JObj [(''a'', JArr [JNum 1, JNum 2]), (''b'', JNull)])
                      (JObj [(''b'', JNull), (''a'', JArr [JNum 2, JNum 1])])"
    by (rule reordered.properties[where kvs' = "[(''a'', JArr [JNum 2, JNum 1]), (''b'', JNull)]"])
       (simp_all add: reordered.same r1)
  from r1 r2 r3 canonicalize_reordered[OF r1] canonicalize_reordered[OF r2]
    canonicalize_reordered[OF r3]
  show ?thesis by blast
qed



section \<open>Properties of the entity strategy (C2, C3, C9, C10)\<close>

text \<open>
  C2. On two arrays of records whose ids convert to strings \<^verbatim>\<open>entityCompare\<close> returns,
  and every stringified id of a saved record whose \<^verbatim>\<open>item[idField]\<close> is neither
  \<^verbatim>\<open>undefined\<close> nor \<^verbatim>\<open>null\<close> occurs exactly once in \<^verbatim>\<open>missing\<close> and
  \<^verbatim>\<open>matched\<close> taken together; every id of a current record occurs exactly once in
  \<^verbatim>\<open>extra\<close> and \<^verbatim>\<open>matched\<close> taken together; a record whose id field is absent or
  \<^verbatim>\<open>null\<close> is the entity of no entry, and the result is the one obtained with such
  records removed from both arrays.
\<close>

theorem entityCompare_partition:
  assumes "list_all is_record saved" and "list_all is_record current"
    and "list_all (id_prints idField) saved" and "list_all (id_prints idField) current"
  shows "\<exists>r. entityCompare saved current idField excludeKeys = Inr r
    \<and> (\<forall>item v key. item \<in> set saved \<longrightarrow> js_get item idField = Inr (Some v) \<longrightarrow>
          v \<noteq> Data JNull \<longrightarrow> js_String v = Inr key \<longrightarrow>
          count_list (map er_id (res_missing r) @ map me_id (res_matched r)) key = 1)
    \<and> (\<forall>item v key. item \<in> set current \<longrightarrow> js_get item idField = Inr (Some v) \<longrightarrow>
          v \<noteq> Data JNull \<longrightarrow> js_String v = Inr key \<longrightarrow>
          count_list (map er_id (res_extra r) @ map me_id (res_matched r)) key = 1)
    \<and> (\<forall>item. item \<in> set saved \<union> set current \<longrightarrow>
           js_get item idField = Inr None \<or> js_get item idField = Inr (Some (Data JNull)) \<longrightarrow>
           item \<notin> er_entity ` set (res_missing r) \<and> item \<notin> er_entity ` set (res_extra r))
    \<and> entityCompare (filter (\<lambda>item. id_of idField item \<noteq> None) saved)
          (filter (\<lambda>item. id_of idField item \<noteq> None) current) idField excludeKeys = Inr r"
proof -
  let ?r = "entity_result_of (index_of idField saved) (index_of idField current) idField excludeKeys"
  let ?S = "first_occurrences (ids_of idField saved)"
  let ?C = "first_occurrences (ids_of idField current)"
  have run: "entityCompare saved current idField excludeKeys = Inr ?r"
    using assms by (rule entityCompare_records)
  have mi: "map er_id (res_missing ?r) = filter (\<lambda>i. i \<notin> set ?C) ?S"
    by (simp add: missing_ids)
  have ex: "map er_id (res_extra ?r) = filter (\<lambda>i. i \<notin> set ?S) ?C"
    by (simp add: extra_ids)
  have ma: "map me_id (res_matched ?r) = filter (\<lambda>i. i \<in> set ?C) ?S"
    by (simp add: matched_ids)
  have p1: "count_list (map er_id (res_missing ?r) @ map me_id (res_matched ?r)) key = 1"
    if "item \<in> set saved" "js_get item idField = Inr (Some v)" "v \<noteq> Data JNull"
       "js_String v = Inr key" for item v key
  proof -
    from that have "key \<in> set ?S" by (simp add: record_id_member)
    then show ?thesis unfolding mi ma
      by (intro count_list_filter_partition) simp_all
  qed
  have p2: "count_list (map er_id (res_extra ?r) @ map me_id (res_matched ?r)) key = 1"
    if "item \<in> set current" "js_get item idField = Inr (Some v)" "v \<noteq> Data JNull"
       "js_String v = Inr key" for item v key
  proof -
    from that have "key \<in> set ?C" by (simp add: record_id_member)
    then show ?thesis unfolding ex ma
      by (intro count_list_disjoint_filters) simp_all
  qed
  have p3: "item \<notin> er_entity ` set (res_missing ?r) \<and> item \<notin> er_entity ` set (res_extra ?r)"
    if "js_get item idField = Inr None \<or> js_get item idField = Inr (Some (Data JNull))" for item
  proof -
    from that have none: "id_of idField item = None" by (rule record_without_id)
    have "item \<noteq> er_entity e" if "e \<in> set (res_missing ?r)" for e
      using last_with_id_Some[OF entity_of_missing[OF that]] none by auto
    moreover have "item \<noteq> er_entity e" if "e \<in> set (res_extra ?r)" for e
      using last_with_id_Some[OF entity_of_extra[OF that]] none by auto
    ultimately show ?thesis by (auto simp: image_iff)
  qed
  have p4: "entityCompare (filter (\<lambda>item. id_of idField item \<noteq> None) saved)
          (filter (\<lambda>item. id_of idField item \<noteq> None) current) idField excludeKeys = Inr ?r"
    using entityCompare_records[OF records_filter[OF assms(1)] records_filter[OF assms(2)]
        records_filter[OF assms(3)] records_filter[OF assms(4)]]
    by (simp only: index_of_filter_id)
  from run p1 p2 p3 p4 show ?thesis by blast
qed

text \<open>Two records with ids on each side, one shared; records without an id and with a
  \<^verbatim>\<open>null\<close> id beside them.\<close>

theorem entityCompare_partition_witness:
  "list_all is_record sample_saved \<and> list_all is_record sample_current
   \<and> list_all (id_prints ''id'') sample_saved \<and> list_all (id_prints ''id'') sample_current
   \<and> entityCompare sample_saved sample_current ''id'' [] = Inr sample_result
   \<and> count_list (map er_id (res_missing sample_result) @ map me_id (res_matched sample_result)) ''a'' = 1
   \<and> count_list (map er_id (res_missing sample_result) @ map me_id (res_matched sample_result)) ''b'' = 1
   \<and> count_list (map er_id (res_extra sample_result) @ map me_id (res_matched sample_result)) ''b'' = 1
   \<and> count_list (map er_id (res_extra sample_result) @ map me_id (res_matched sample_result)) ''c'' = 1
   \<and> JObj [(''n'', JNum 5)] \<notin> er_entity ` set (res_missing sample_result)
   \<and> JObj [(''id'', JNull), (''n'', JNum 6)] \<notin> er_entity ` set (res_missing sample_result)
   \<and> JObj [(''x'', JNum 1)] \<notin> er_entity ` set (res_extra sample_result)"
proof -
  from entityCompare_partition[OF sample_records sample_prints, of "[]"]
  obtain r where r: "entityCompare sample_saved sample_current ''id'' [] = Inr r"
    and s0: "\<forall>item v key. item \<in> set sample_saved \<longrightarrow> js_get item ''id'' = Inr (Some v) \<longrightarrow>
          v \<noteq> Data JNull \<longrightarrow> js_String v = Inr key \<longrightarrow>
          count_list (map er_id (res_missing r) @ map me_id (res_matched r)) key = 1"
    and c0: "\<forall>item v key. item \<in> set sample_current \<longrightarrow> js_get item ''id'' = Inr (Some v) \<longrightarrow>
          v \<noteq> Data JNull \<longrightarrow> js_String v = Inr key \<longrightarrow>
          count_list (map er_id (res_extra r) @ map me_id (res_matched r)) key = 1"
    and n0: "\<forall>item. item \<in> set sample_saved \<union> set sample_current \<longrightarrow>
           js_get item ''id'' = Inr None \<or> js_get item ''id'' = Inr (Some (Data JNull)) \<longrightarrow>
           item \<notin> er_entity ` set (res_missing r) \<and> item \<notin> er_entity ` set (res_extra r)"
    by (elim exE conjE) (rule that; assumption)
  note s = s0[rule_format] and c = c0[rule_format] and n = n0[rule_format]
  from r have rr: "r = sample_result" by (simp add: sample_run)
  have a1: "count_list (map er_id (res_missing r) @ map me_id (res_matched r)) ''a'' = 1"
    by (rule s[of "JObj [(''id'', JStr ''a''), (''n'', JNum 1)]" "Data (JStr ''a'')"])
       (simp_all add: sample_saved_def js_get_record)
  have a2: "count_list (map er_id (res_missing r) @ map me_id (res_matched r)) ''b'' = 1"
    by (rule s[of "JObj [(''id'', JStr ''b''), (''note'', JStr ''hi''), (''gone'', JNull)]"
          "Data (JStr ''b'')"])
       (simp_all add: sample_saved_def js_get_record)
  have a3: "count_list (map er_id (res_extra r) @ map me_id (res_matched r)) ''b'' = 1"
    by (rule c[of "JObj [(''tags'', JArr [JNum 2, JNum 1]), (''id'', JStr ''b''), (''note'', JStr ''ho'')]"
          "Data (JStr ''b'')"])
       (simp_all add: sample_current_def js_get_record)
  have a4: "count_list (map er_id (res_extra r) @ map me_id (res_matched r)) ''c'' = 1"
    by (rule c[of "JObj [(''id'', JStr ''c'')]" "Data (JStr ''c'')"])
       (simp_all add: sample_current_def js_get_record)
  have u: "inherited ObjectClass ''id'' = None" by code_simp
  have n1: "JObj [(''n'', JNum 5)] \<notin> er_entity ` set (res_missing r)"
    using n[of "JObj [(''n'', JNum 5)]"] by (simp add: sample_saved_def js_get_record u)
  have n2: "JObj [(''id'', JNull), (''n'', JNum 6)] \<notin> er_entity ` set (res_missing r)"
    using n[of "JObj [(''id'', JNull), (''n'', JNum 6)]"] by (simp add: sample_saved_def js_get_record)
  have n3: "JObj [(''x'', JNum 1)] \<notin> er_entity ` set (res_extra r)"
    using n[of "JObj [(''x'', JNum 1)]"] by (simp add: sample_current_def js_get_record u)
  from sample_records sample_prints sample_run a1 a2 a3 a4 n1 n2 n3 show ?thesis
    unfolding rr by simp
qed
text \<open>
  C3. For a matched id the differences are computed over the union of the property names
  of the two indexed records without the id field and the excluded names, in sorted order.
  For a name that \<^verbatim>\<open>Object.prototype\<close> does not hold the loop does what the
  specification says (lemma \<open>matched_differences_plain\<close>). For a name that it holds the
  test \<^verbatim>\<open>key in saved\<close> succeeds on a record that has no such property, and the loop
  takes the branch for a property present on both sides. With the property
  \<^verbatim>\<open>constructor\<close> on the current side only, the difference does not carry the absent
  marker on the saved side, as the specification has it, but the inherited function
  \<^verbatim>\<open>Object\<close>; with the property \<^verbatim>\<open>__proto__\<close> holding an empty object on the current
  side only, the inherited \<^verbatim>\<open>Object.prototype\<close> has the same canonical string and no
  difference is reported.
\<close>

theorem diffProperties_inherited_name:
  "entityCompare [JObj [(''id'', JStr ''x'')]]
      [JObj [(''id'', JStr ''x''), (''constructor'', JStr ''Foo'')]] ''id'' []
     = Inr \<lparr>res_missing = [], res_extra = [],
            res_matched =
              [\<lparr>me_id = ''x'',
                me_differences =
                  [\<lparr>pd_property = ''constructor'',
                    pd_saved = Some (Builtin (Constructor ObjectClass)),
                    pd_current = Some (Data (JStr ''Foo''))\<rparr>]\<rparr>],
            res_summary = \<lparr>es_missing = 0, es_extra = 0, es_changed = 1, es_inSync = 0\<rparr>\<rparr>
   \<and> differences_spec [(''id'', JStr ''x'')]
        [(''id'', JStr ''x''), (''constructor'', JStr ''Foo'')] ''id'' []
     = [\<lparr>pd_property = ''constructor'', pd_saved = None,
         pd_current = Some (Data (JStr ''Foo''))\<rparr>]
   \<and> diffProperties (JObj [(''id'', JStr ''x'')])
        (JObj [(''id'', JStr ''x''), (''__proto__'', JObj [])]) ''id'' [] = Inr []
   \<and> differences_spec [(''id'', JStr ''x'')]
        [(''id'', JStr ''x''), (''__proto__'', JObj [])] ''id'' []
     = [\<lparr>pd_property = ''__proto__'', pd_saved = None, pd_current = Some (Data (JObj []))\<rparr>]"
  by code_simp
text \<open>
  C9. On arrays of records whose ids convert to strings: where several records of one
  array stringify to the same id, the index holds each id once, with the last such record. The earlier duplicates play no part in the result:
  with every overwritten record removed from both arrays, \<^verbatim>\<open>entityCompare\<close> returns
  the same \<^verbatim>\<open>missing\<close>, \<^verbatim>\<open>extra\<close> and \<^verbatim>\<open>matched\<close> entries and the same summary.
\<close>

theorem index_last_write_wins:
  assumes "list_all is_record saved" and "list_all is_record current"
    and "list_all (id_prints idField) saved" and "list_all (id_prints idField) current"
  shows "\<exists>m r r'. indexById saved idField = Inr m
     \<and> distinct (map fst m)
     \<and> (\<forall>i. map_of m i = last_with_id idField saved i)
     \<and> entityCompare saved current idField excludeKeys = Inr r
     \<and> entityCompare (keep_last idField saved) (keep_last idField current) idField excludeKeys = Inr r'
     \<and> mset (res_missing r') = mset (res_missing r)
     \<and> mset (res_extra r') = mset (res_extra r)
     \<and> mset (res_matched r') = mset (res_matched r)
     \<and> res_summary r' = res_summary r"
proof -
  have i: "indexById saved idField = Inr (index_of idField saved)"
    using assms(1,3) by (simp add: indexById_eq records_not_null)
  note c = entity_result_of_cong[OF index_of_keep_last_mset index_of_keep_last_mset
      index_of_keep_last_map_of index_of_keep_last_map_of,
      of idField saved idField current idField excludeKeys]
  from i entityCompare_records[OF assms]
    entityCompare_records[OF records_keep_last[OF assms(1)] records_keep_last[OF assms(2)]
      records_keep_last[OF assms(3)] records_keep_last[OF assms(4)]]
    distinct_index_of[of idField saved] map_of_index_of[of idField saved] c
  show ?thesis by blast
qed

text \<open>The id \<^verbatim>\<open>1\<close> occurs twice in the saved array; the index and the comparison see
  the second record only.\<close>

theorem index_last_write_wins_witness:
  "list_all is_record duplicate_saved \<and> list_all is_record duplicate_current
   \<and> list_all (id_prints ''id'') duplicate_saved \<and> list_all (id_prints ''id'') duplicate_current
   \<and> indexById duplicate_saved ''id'' =
       Inr [(''1'', JObj [(''id'', JNum 1), (''a'', JNum 2)]), (''2'', JObj [(''id'', JNum 2)])]
   \<and> last_with_id ''id'' duplicate_saved ''1'' = Some (JObj [(''id'', JNum 1), (''a'', JNum 2)])
   \<and> keep_last ''id'' duplicate_saved =
       [JObj [(''id'', JNum 2)], JObj [(''id'', JNum 1), (''a'', JNum 2)]]
   \<and> entityCompare duplicate_saved duplicate_current ''id'' [] = Inr duplicate_matched_result
   \<and> (\<exists>r'. entityCompare (keep_last ''id'' duplicate_saved) (keep_last ''id'' duplicate_current) ''id'' [] = Inr r'
         \<and> mset (res_missing r') = mset (res_missing duplicate_matched_result)
         \<and> mset (res_extra r') = mset (res_extra duplicate_matched_result)
         \<and> mset (res_matched r') = mset (res_matched duplicate_matched_result)
         \<and> res_summary r' = res_summary duplicate_matched_result)"
proof -
  from index_last_write_wins[OF duplicate_records duplicate_prints, of "[]"]
  obtain m r r' where m: "indexById duplicate_saved ''id'' = Inr m"
    and l0: "\<forall>i. map_of m i = last_with_id ''id'' duplicate_saved i"
    and r: "entityCompare duplicate_saved duplicate_current ''id'' [] = Inr r"
    and r': "entityCompare (keep_last ''id'' duplicate_saved) (keep_last ''id'' duplicate_current) ''id'' [] = Inr r'"
    and e: "mset (res_missing r') = mset (res_missing r)" "mset (res_extra r') = mset (res_extra r)"
       "mset (res_matched r') = mset (res_matched r)" "res_summary r' = res_summary r"
    by (elim exE conjE) (rule that; assumption)
  note l = l0[rule_format]
  from m have mm: "m = [(''1'', JObj [(''id'', JNum 1), (''a'', JNum 2)]), (''2'', JObj [(''id'', JNum 2)])]"
    by (simp add: duplicate_index)
  from l[of "''1''"] have l1: "last_with_id ''id'' duplicate_saved ''1'' = Some (JObj [(''id'', JNum 1), (''a'', JNum 2)])"
    unfolding mm by simp
  from r have rr: "r = duplicate_matched_result" by (simp add: duplicate_runs)
  from r' e have "\<exists>r'. entityCompare (keep_last ''id'' duplicate_saved) (keep_last ''id'' duplicate_current) ''id'' [] = Inr r'
         \<and> mset (res_missing r') = mset (res_missing duplicate_matched_result)
         \<and> mset (res_extra r') = mset (res_extra duplicate_matched_result)
         \<and> mset (res_matched r') = mset (res_matched duplicate_matched_result)
         \<and> res_summary r' = res_summary duplicate_matched_result"
    unfolding rr by blast
  with duplicate_records duplicate_prints duplicate_index l1 duplicate_keep_last(1)
    duplicate_runs(1)
  show ?thesis by blast
qed

text \<open>
  C10 (as amended). On arrays of records whose ids convert to strings, the output order
  follows the order of the \<^verbatim>\<open>Map\<close>: \<^verbatim>\<open>missing\<close> and \<^verbatim>\<open>matched\<close> list their ids
  by the position at which each id first occurs in the saved array, \<^verbatim>\<open>extra\<close> by the
  position at which each id first occurs in the current array. The entity listed with an
  id in \<^verbatim>\<open>missing\<close> or \<^verbatim>\<open>extra\<close> is the last record with that id.
\<close>

theorem entityCompare_order:
  assumes "list_all is_record saved" and "list_all is_record current"
    and "list_all (id_prints idField) saved" and "list_all (id_prints idField) current"
  shows "\<exists>r. entityCompare saved current idField excludeKeys = Inr r
    \<and> map er_id (res_missing r)
         = filter (\<lambda>i. i \<notin> set (ids_of idField current)) (first_occurrences (ids_of idField saved))
    \<and> map me_id (res_matched r)
         = filter (\<lambda>i. i \<in> set (ids_of idField current)) (first_occurrences (ids_of idField saved))
    \<and> map er_id (res_extra r)
         = filter (\<lambda>i. i \<notin> set (ids_of idField saved)) (first_occurrences (ids_of idField current))
    \<and> sorted_wrt (\<lambda>i j. first_position (ids_of idField saved) i < first_position (ids_of idField saved) j)
         (map er_id (res_missing r))
    \<and> sorted_wrt (\<lambda>i j. first_position (ids_of idField saved) i < first_position (ids_of idField saved) j)
         (map me_id (res_matched r))
    \<and> sorted_wrt (\<lambda>i j. first_position (ids_of idField current) i < first_position (ids_of idField current) j)
         (map er_id (res_extra r))
    \<and> (\<forall>e\<in>set (res_missing r). last_with_id idField saved (er_id e) = Some (er_entity e))
    \<and> (\<forall>e\<in>set (res_extra r). last_with_id idField current (er_id e) = Some (er_entity e))"
  using entityCompare_records[OF assms, of excludeKeys]
  by (simp add: missing_ids matched_ids extra_ids filter_first_occurrences_ordered
        entity_of_missing entity_of_extra)

text \<open>The claim as first stated orders the lists by the position of the record that the
  index retains, the last one with its id. With the id \<^verbatim>\<open>1\<close> at positions 0 and 2 and the
  id \<^verbatim>\<open>2\<close> at position 1, the retained records stand at positions 2 and 1, and
  \<^verbatim>\<open>missing\<close> lists \<^verbatim>\<open>1\<close> before \<^verbatim>\<open>2\<close>.\<close>

theorem entityCompare_order_counterexample:
  "entityCompare duplicate_saved [] ''id'' [] = Inr duplicate_result
   \<and> ids_of ''id'' duplicate_saved = [''1'', ''2'', ''1'']
   \<and> map er_id (res_missing duplicate_result) = [''1'', ''2'']
   \<and> map (last_position (ids_of ''id'' duplicate_saved)) (map er_id (res_missing duplicate_result)) = [2, 1]
   \<and> \<not> sorted (map (last_position (ids_of ''id'' duplicate_saved)) (map er_id (res_missing duplicate_result)))"
proof -
  have ids: "ids_of ''id'' duplicate_saved = [''1'', ''2'', ''1'']" by code_simp
  have mi: "map er_id (res_missing duplicate_result) = [''1'', ''2'']"
    by (simp add: duplicate_result_def)
  have lp: "map (last_position [''1'', ''2'', ''1'']) [''1'', ''2''] = [2, 1]"
    by (simp add: last_position_def first_position_def)
  from duplicate_runs(2) ids mi lp show ?thesis by simp
qed

theorem entityCompare_order_witness:
  "list_all is_record duplicate_saved \<and> list_all (id_prints ''id'') duplicate_saved
   \<and> entityCompare duplicate_saved [] ''id'' [] = Inr duplicate_result
   \<and> map er_id (res_missing duplicate_result)
        = filter (\<lambda>i. i \<notin> set (ids_of ''id'' [])) (first_occurrences (ids_of ''id'' duplicate_saved))
   \<and> first_occurrences (ids_of ''id'' duplicate_saved) = [''1'', ''2'']
   \<and> sorted_wrt (\<lambda>i j. first_position (ids_of ''id'' duplicate_saved) i
                        < first_position (ids_of ''id'' duplicate_saved) j)
        (map er_id (res_missing duplicate_result))
   \<and> map er_entity (res_missing duplicate_result)
        = [JObj [(''id'', JNum 1), (''a'', JNum 2)], JObj [(''id'', JNum 2)]]
   \<and> last_with_id ''id'' duplicate_saved ''1'' = Some (JObj [(''id'', JNum 1), (''a'', JNum 2)])"
proof -
  have e: "list_all is_record []" "list_all (id_prints ''id'') []" by simp_all
  from entityCompare_order[OF duplicate_records(1) e(1) duplicate_prints(1) e(2), of "[]"]
  obtain r where r: "entityCompare duplicate_saved [] ''id'' [] = Inr r"
    and a: "map er_id (res_missing r)
        = filter (\<lambda>i. i \<notin> set (ids_of ''id'' [])) (first_occurrences (ids_of ''id'' duplicate_saved))"
    and b: "sorted_wrt (\<lambda>i j. first_position (ids_of ''id'' duplicate_saved) i
                        < first_position (ids_of ''id'' duplicate_saved) j)
        (map er_id (res_missing r))"
    and l0: "\<forall>e\<in>set (res_missing r). last_with_id ''id'' duplicate_saved (er_id e) = Some (er_entity e)"
    by (elim exE conjE) (rule that; assumption)
  from r have rr: "r = duplicate_result" by (simp add: duplicate_runs)
  have f: "first_occurrences (ids_of ''id'' duplicate_saved) = [''1'', ''2'']" by code_simp
  have en: "map er_entity (res_missing duplicate_result)
        = [JObj [(''id'', JNum 1), (''a'', JNum 2)], JObj [(''id'', JNum 2)]]"
    by (simp add: duplicate_result_def)
  have "\<lparr>er_id = ''1'', er_entity = JObj [(''id'', JNum 1), (''a'', JNum 2)]\<rparr>
          \<in> set (res_missing r)"
    unfolding rr by (simp add: duplicate_result_def)
  with l0 have l: "last_with_id ''id'' duplicate_saved ''1''
      = Some (JObj [(''id'', JNum 1), (''a'', JNum 2)])"
    by fastforce
  from duplicate_records(1) duplicate_prints(1) duplicate_runs(2) a b f en l show ?thesis
    unfolding rr by blast
qed

section \<open>Property of the flat strategy (C4)\<close>

text \<open>
  C4. \<^verbatim>\<open>flatCompare\<close> counts the items of each side by canonical string, keeping the
  first item seen for each string. For every canonical key \<open>k\<close>, with \<open>Cs\<close> its count
  in saved and \<open>Cc\<close> its count in current, \<^verbatim>\<open>missing\<close> holds exactly
  \<open>max 0 (Cs - Cc)\<close> items with that key, all of them the item kept on the saved side,
  and \<^verbatim>\<open>extra\<close> exactly \<open>max 0 (Cc - Cs)\<close>, all of them the item kept on the current
  side; the keys are visited in the order of their first occurrence; the summary holds
  the two lengths; and an array compared with itself gives two empty lists.
\<close>

theorem flatCompare_multiset_difference:
  "filter (\<lambda>r. canonicalize r = k) (fr_missing (flatCompare saved current))
     = replicate (nat (max 0 (int (key_count saved k) - int (key_count current k))))
         (representative saved k)
   \<and> filter (\<lambda>r. canonicalize r = k) (fr_extra (flatCompare saved current))
     = replicate (nat (max 0 (int (key_count current k) - int (key_count saved k))))
         (representative current k)
   \<and> fr_missing (flatCompare saved current)
     = concat (map (\<lambda>k. replicate (key_count saved k - key_count current k) (representative saved k))
                 (first_occurrences (map canonicalize saved)))
   \<and> fr_extra (flatCompare saved current)
     = concat (map (\<lambda>k. replicate (key_count current k - key_count saved k) (representative current k))
                 (first_occurrences (map canonicalize current)))
   \<and> map fst (buildMultiset saved) = first_occurrences (map canonicalize saved)
   \<and> (case map_of (buildMultiset saved) k of Some e \<Rightarrow> ms_count e | None \<Rightarrow> 0) = key_count saved k
   \<and> fs_missing (fr_summary (flatCompare saved current)) = length (fr_missing (flatCompare saved current))
   \<and> fs_extra (fr_summary (flatCompare saved current)) = length (fr_extra (flatCompare saved current))
   \<and> fr_missing (flatCompare saved saved) = []
   \<and> fr_extra (flatCompare saved saved) = []"
  unfolding nat_max_diff
  using missing_per_key[of k saved current] extra_per_key[of k saved current]
    missing_eq[of saved current] extra_eq[of saved current]
    keys_buildMultiset[of saved] count_of_buildMultiset[of saved k]
    summary_eq[of saved current]
  by (simp add: missing_eq[of saved saved] extra_eq[of saved saved])

text \<open>Three lookups, two of them the same record with its keys in another order, against
  a current side that keeps one of the two and adds another record twice.\<close>

theorem flatCompare_multiset_difference_witness:
  "filter (\<lambda>r. canonicalize r = sample_key_a)
      (fr_missing (flatCompare sample_lookups sample_lookups_current))
     = [JObj [(''k'', JStr ''a''), (''v'', JNum 1)]]
   \<and> filter (\<lambda>r. canonicalize r = sample_key_a)
      (fr_extra (flatCompare sample_lookups sample_lookups_current)) = []
   \<and> filter (\<lambda>r. canonicalize r = sample_key_c)
      (fr_extra (flatCompare sample_lookups sample_lookups_current))
     = [JObj [(''k'', JStr ''c'')], JObj [(''k'', JStr ''c'')]]
   \<and> canonicalize (JObj [(''v'', JNum 1), (''k'', JStr ''a'')]) = sample_key_a
   \<and> fr_missing (flatCompare sample_lookups sample_lookups) = []
   \<and> fr_extra (flatCompare sample_lookups sample_lookups) = []"
proof -
  note a = flatCompare_multiset_difference[of sample_key_a sample_lookups sample_lookups_current]
  note c = flatCompare_multiset_difference[of sample_key_c sample_lookups sample_lookups_current]
  have n1: "nat (max 0 (int 2 - int 1)) = 1" "nat (max 0 (int 1 - int 2)) = 0"
    "nat (max 0 (int 2 - int 0)) = 2" by simp_all
  from a have a1: "filter (\<lambda>r. canonicalize r = sample_key_a)
      (fr_missing (flatCompare sample_lookups sample_lookups_current))
     = replicate 1 (JObj [(''k'', JStr ''a''), (''v'', JNum 1)])"
    unfolding sample_lookups_counts n1 by (rule conjunct1)
  from a have a2: "filter (\<lambda>r. canonicalize r = sample_key_a)
      (fr_extra (flatCompare sample_lookups sample_lookups_current))
     = replicate 0 (representative sample_lookups_current sample_key_a)"
    unfolding sample_lookups_counts n1 by blast
  from c have c1: "filter (\<lambda>r. canonicalize r = sample_key_c)
      (fr_extra (flatCompare sample_lookups sample_lookups_current))
     = replicate 2 (JObj [(''k'', JStr ''c'')])"
    unfolding sample_lookups_counts n1 by blast
  from a have e: "fr_missing (flatCompare sample_lookups sample_lookups) = []"
    "fr_extra (flatCompare sample_lookups sample_lookups) = []" by blast+
  have r: "replicate 1 x = [x]" "replicate 0 x = []" "replicate 2 x = [x, x]" for x :: jvalue
    by (simp_all add: numeral_2_eq_2)
  from a1 a2 c1 e sample_key_a_other show ?thesis unfolding r by blast
qed

section \<open>Properties of the engine (C1, C7, C8)\<close>

text \<open>
  C1. In every section the engine returns, at the top level or nested,
  \<^verbatim>\<open>totalDifferences\<close> is the section's own count (missing + extra + changed for an
  entity section, missing + extra for a flat section) plus the sum of the
  \<^verbatim>\<open>totalDifferences\<close> of its child sections, and the same holds in each child section;
  the \<^verbatim>\<open>totalDifferences\<close> of a report is the sum over its top-level sections.
\<close>

theorem section_totals:
  "(compareSection cfg savedArr currentArr = Inr sec \<longrightarrow>
      totals_consistent sec
      \<and> sec_totalDifferences sec
           = direct_differences sec + sum_list (map sec_totalDifferences (child_sections sec))
      \<and> list_all totals_consistent (child_sections sec))
   \<and> (compare now saved current = Inr rep \<longrightarrow>
        report_totalDifferences rep = sum_list (map sec_totalDifferences (report_sections rep))
      \<and> list_all totals_consistent (report_sections rep))"
  using compareSection_totals[of cfg savedArr currentArr sec] totals_consistent_parts[of sec]
    compare_totals[of now saved current rep]
  by blast

text \<open>Scenario 4: the parent section has no difference of its own and one child section
  with one; the report adds the changed user of scenario 1.\<close>

theorem section_totals_witness:
  "compareSection namespaces_config (Data (JArr sample_namespaces_saved))
       (Data (JArr sample_namespaces_current))
     = Inr sample_namespaces_section
   \<and> totals_consistent sample_namespaces_section
   \<and> sec_totalDifferences sample_namespaces_section = 1
   \<and> direct_differences sample_namespaces_section = 0
   \<and> map sec_totalDifferences (child_sections sample_namespaces_section) = [1, 0, 0, 0, 0]
   \<and> compare ''t'' sample_snapshot_saved sample_snapshot_current
        = Inr (projr (compare ''t'' sample_snapshot_saved sample_snapshot_current))
   \<and> report_totalDifferences (projr (compare ''t'' sample_snapshot_saved sample_snapshot_current))
        = sum_list [0, 0, 0, 0, 1, 0, 0, 0, 1]"
proof -
  note t = section_totals[of namespaces_config "Data (JArr sample_namespaces_saved)"
      "Data (JArr sample_namespaces_current)" sample_namespaces_section
      "''t''" sample_snapshot_saved sample_snapshot_current
      "projr (compare ''t'' sample_snapshot_saved sample_snapshot_current)"]
  from t sample_namespaces_run have a: "totals_consistent sample_namespaces_section"
    and b: "sec_totalDifferences sample_namespaces_section
           = direct_differences sample_namespaces_section
             + sum_list (map sec_totalDifferences (child_sections sample_namespaces_section))"
    by blast+
  have d: "direct_differences sample_namespaces_section = 0"
    and c: "map sec_totalDifferences (child_sections sample_namespaces_section) = [1, 0, 0, 0, 0]"
    by (simp_all add: sample_namespaces_section_def)
  from b have e: "sec_totalDifferences sample_namespaces_section = 1" unfolding d c by simp
  from t sample_compare_run(1)
  have "report_totalDifferences (projr (compare ''t'' sample_snapshot_saved sample_snapshot_current))
        = sum_list (map sec_totalDifferences
            (report_sections (projr (compare ''t'' sample_snapshot_saved sample_snapshot_current))))"
    by blast
  then have f: "report_totalDifferences (projr (compare ''t'' sample_snapshot_saved sample_snapshot_current))
        = sum_list [0, 0, 0, 0, 1, 0, 0, 0, 1]"
    unfolding sample_compare_run(3) .
  from sample_namespaces_run a e d c sample_compare_run(1) f show ?thesis by blast
qed

text \<open>
  C7. For an entity entry with an id field and child entries (whose keys are names of
  collections, not names that \<^verbatim>\<open>Object.prototype\<close> holds) and two well-formed
  collections, \<^verbatim>\<open>compareSection\<close> returns a section whose child sections are, for each
  matched parent in order and each child entry in order, the section that
  \<^verbatim>\<open>compareSection\<close> gives for the child entry on the two sub-collections
  \<^verbatim>\<open>parent[key] || []\<close> read from the two parent records indexed under that id (the
  empty collection where the property is absent), tagged with the parent's id and the
  parent entry's label. The parent id of a child section is the
  id of a matched parent, never one of a missing or an extra parent.
\<close>

theorem child_recursion:
  assumes "children \<noteq> []"
    and "list_all plain_keys children"
    and "wf_collection (Config key label Entity (Some f) children) (JArr saved)"
    and "wf_collection (Config key label Entity (Some f) children) (JArr current)"
  shows "\<exists>result secs total.
      entityCompare saved current f (map cfg_key children) = Inr result
    \<and> compareSection (Config key label Entity (Some f) children)
          (Data (JArr saved)) (Data (JArr current))
        = Inr (EntitySection key label (res_summary result) (res_missing result)
                 (res_extra result) (res_matched result) (Some secs) total None None)
    \<and> list_all2
         (\<lambda>p sec. \<exists>sp cp child.
             last_with_id f saved (me_id (fst p)) = Some (JObj sp)
           \<and> last_with_id f current (me_id (fst p)) = Some (JObj cp)
           \<and> compareSection (snd p) (collection_at (JObj sp) (cfg_key (snd p)))
                                    (collection_at (JObj cp) (cfg_key (snd p))) = Inr child
           \<and> sec = set_parent (me_id (fst p)) label child)
         (List.product (res_matched result) children) secs
    \<and> (\<forall>sec\<in>set secs.
          sec_parentLabel sec = Some label
        \<and> sec_parentId sec \<in> Some ` me_id ` set (res_matched result)
        \<and> sec_parentId sec \<notin> Some ` er_id ` set (res_missing result)
        \<and> sec_parentId sec \<notin> Some ` er_id ` set (res_extra result))"
proof -
  let ?r = "entity_result_of (index_of f saved) (index_of f current) f (map cfg_key children)"
  let ?Q = "\<lambda>p sec. \<exists>sp cp child.
             last_with_id f saved (me_id (fst p)) = Some (JObj sp)
           \<and> last_with_id f current (me_id (fst p)) = Some (JObj cp)
           \<and> compareSection (snd p) (collection_at (JObj sp) (cfg_key (snd p)))
                                    (collection_at (JObj cp) (cfg_key (snd p))) = Inr child
           \<and> sec = set_parent (me_id (fst p)) label child"
  from wf_collection_array[OF assms(3)] wf_collection_array[OF assms(4)]
  have s: "list_all (wf_record Entity (Some f) children) saved"
    and c: "list_all (wf_record Entity (Some f) children) current"
    by simp_all
  have rs: "list_all is_record saved" and rc: "list_all is_record current"
    using s c by (simp_all add: wf_records_are_records)
  from wf_records_print(1)[OF s] wf_records_print(1)[OF c]
  have ps: "list_all (id_prints f) saved" and pc: "list_all (id_prints f) current"
    by (simp_all add: idField_or_default_def)
  have ec: "entityCompare saved current f (map cfg_key children) = Inr ?r"
    using rs rc ps pc by (rule entityCompare_records)
  have ih: "ch \<in> set children \<Longrightarrow> wf_collection ch s' \<Longrightarrow> wf_collection ch c'
             \<Longrightarrow> \<exists>sec. compareSection ch (Data s') (Data c') = Inr sec" for ch s' c'
    using assms(2) by (auto simp: list_all_iff intro: compareSection_wf)
  from entity_section_run[OF ih s c assms(2), of key label] assms(1)
  obtain secs where
      run: "compareSection (Config key label Entity (Some f) children)
              (Data (JArr saved)) (Data (JArr current))
        = Inr (EntitySection key label (res_summary ?r) (res_missing ?r) (res_extra ?r) (res_matched ?r)
                 (Some secs)
                 (es_missing (res_summary ?r) + es_extra (res_summary ?r) + es_changed (res_summary ?r)
                  + sum_list (map sec_totalDifferences secs)) None None)"
    and l2: "list_all2 (\<lambda>p sec. child_section_of label
                    (parent_props (index_of f saved) (me_id (fst p)))
                    (parent_props (index_of f current) (me_id (fst p)))
                    (me_id (fst p)) (snd p) sec)
         (List.product (res_matched ?r) children) secs"
    by (auto simp: idField_or_default_def idField_as_key_def)
  have l2': "list_all2 ?Q (List.product (res_matched ?r) children) secs"
  proof (rule list.rel_mono_strong[OF l2])
    fix p sec
    assume p: "p \<in> set (List.product (res_matched ?r) children)"
      and cs: "child_section_of label (parent_props (index_of f saved) (me_id (fst p)))
                 (parent_props (index_of f current) (me_id (fst p))) (me_id (fst p)) (snd p) sec"
    from p have "fst p \<in> set (res_matched ?r)" by auto
    from matched_parent_props[OF rs rc this] obtain sp cp where
        l: "last_with_id f saved (me_id (fst p)) = Some (JObj sp)"
           "last_with_id f current (me_id (fst p)) = Some (JObj cp)"
        and pp: "parent_props (index_of f saved) (me_id (fst p)) = sp"
           "parent_props (index_of f current) (me_id (fst p)) = cp"
      by blast
    from cs obtain child where
        "compareSection (snd p) (collection_at (JObj sp) (cfg_key (snd p)))
                                    (collection_at (JObj cp) (cfg_key (snd p))) = Inr child"
        "sec = set_parent (me_id (fst p)) label child"
      unfolding pp child_section_of_def by (auto split: sum.splits)
    with l show "?Q p sec" by blast
  qed
  have ids: "sec_parentLabel sec = Some label
        \<and> sec_parentId sec \<in> Some ` me_id ` set (res_matched ?r)
        \<and> sec_parentId sec \<notin> Some ` er_id ` set (res_missing ?r)
        \<and> sec_parentId sec \<notin> Some ` er_id ` set (res_extra ?r)" if "sec \<in> set secs" for sec
  proof -
    from list_all2_setD2[OF l2' that] obtain p child where
        p: "p \<in> set (List.product (res_matched ?r) children)"
      and sec: "sec = set_parent (me_id (fst p)) label child" by blast
    from p have m: "fst p \<in> set (res_matched ?r)" by auto
    from matched_disjoint[OF m] m sec show ?thesis by auto
  qed
  from ec run l2' ids show ?thesis by blast
qed


text \<open>The theorem at the sample namespaces collections: the one matched namespace
  \<^verbatim>\<open>ns1\<close> yields one child section per declared child key, each carrying the parent id
  \<^verbatim>\<open>ns1\<close> and the parent label \<^verbatim>\<open>Namespaces\<close>.\<close>

theorem child_recursion_witness:
  "wf_collection namespaces_config (JArr sample_namespaces_saved)
   \<and> wf_collection namespaces_config (JArr sample_namespaces_current)
   \<and> cfg_children namespaces_config \<noteq> []
   \<and> list_all plain_keys (cfg_children namespaces_config)
   \<and> compareSection namespaces_config (Data (JArr sample_namespaces_saved))
        (Data (JArr sample_namespaces_current))
        = Inr sample_namespaces_section
   \<and> map me_id (sec_matched sample_namespaces_section) = [''ns1'']
   \<and> map sec_key (child_sections sample_namespaces_section)
        = map cfg_key (cfg_children namespaces_config)
   \<and> list_all (\<lambda>sec. sec_parentLabel sec = Some ''Namespaces'' \<and> sec_parentId sec = Some ''ns1'')
        (child_sections sample_namespaces_section)"
proof -
  let ?chs = "[Config ''classes'' ''Classes'' Entity (Some ''id'') [],
        Config ''globals'' ''Globals'' Entity (Some ''id'') [],
        Config ''credentials'' ''Credentials'' Entity (Some ''id'') [],
        Config ''productionItems'' ''Production Items'' Entity (Some ''id'') [],
        Config ''lookups'' ''Lookup Tables'' Flat None []]"
  have ne: "?chs \<noteq> []" by simp
  have pk: "list_all plain_keys ?chs" by code_simp
  note wf = sample_namespaces_wf[unfolded namespaces_config_def]
  let ?P = "\<lambda>result secs total.
      entityCompare sample_namespaces_saved sample_namespaces_current ''id'' (map cfg_key ?chs)
        = Inr result
    \<and> compareSection (Config ''namespaces'' ''Namespaces'' Entity (Some ''id'') ?chs)
          (Data (JArr sample_namespaces_saved)) (Data (JArr sample_namespaces_current))
        = Inr (EntitySection ''namespaces'' ''Namespaces'' (res_summary result) (res_missing result)
                 (res_extra result) (res_matched result) (Some secs) total None None)
    \<and> list_all2
         (\<lambda>p sec. \<exists>sp cp child.
             last_with_id ''id'' sample_namespaces_saved (me_id (fst p)) = Some (JObj sp)
           \<and> last_with_id ''id'' sample_namespaces_current (me_id (fst p)) = Some (JObj cp)
           \<and> compareSection (snd p) (collection_at (JObj sp) (cfg_key (snd p)))
                                    (collection_at (JObj cp) (cfg_key (snd p))) = Inr child
           \<and> sec = set_parent (me_id (fst p)) ''Namespaces'' child)
         (List.product (res_matched result) ?chs) secs
    \<and> (\<forall>sec\<in>set secs.
          sec_parentLabel sec = Some ''Namespaces''
        \<and> sec_parentId sec \<in> Some ` me_id ` set (res_matched result)
        \<and> sec_parentId sec \<notin> Some ` er_id ` set (res_missing result)
        \<and> sec_parentId sec \<notin> Some ` er_id ` set (res_extra result))"
  have "\<exists>result secs total. ?P result secs total"
    by (rule child_recursion[OF ne pk wf])
  then obtain result where "\<exists>secs total. ?P result secs total" ..
  then obtain secs where "\<exists>total. ?P result secs total" ..
  then obtain total where all: "?P result secs total" ..
  from all have
      run: "compareSection (Config ''namespaces'' ''Namespaces'' Entity (Some ''id'') ?chs)
              (Data (JArr sample_namespaces_saved)) (Data (JArr sample_namespaces_current))
            = Inr (EntitySection ''namespaces'' ''Namespaces'' (res_summary result) (res_missing result)
                 (res_extra result) (res_matched result) (Some secs) total None None)"
    by (elim conjE)
  from all have ids: "\<forall>sec\<in>set secs.
          sec_parentLabel sec = Some ''Namespaces''
        \<and> sec_parentId sec \<in> Some ` me_id ` set (res_matched result)
        \<and> sec_parentId sec \<notin> Some ` er_id ` set (res_missing result)
        \<and> sec_parentId sec \<notin> Some ` er_id ` set (res_extra result)"
    by (elim conjE)
  from run sample_namespaces_run
  have eq: "sample_namespaces_section
      = EntitySection ''namespaces'' ''Namespaces'' (res_summary result) (res_missing result)
                 (res_extra result) (res_matched result) (Some secs) total None None"
    by (simp add: namespaces_config_def)
  have m0: "map me_id (sec_matched sample_namespaces_section) = [''ns1'']"
    by (simp add: sample_namespaces_section_def)
  have sm: "sec_matched sample_namespaces_section = res_matched result"
    by (subst eq) simp
  have "me_id ` set (res_matched result) = set (map me_id (sec_matched sample_namespaces_section))"
    unfolding sm by simp
  then have m: "me_id ` set (res_matched result) = {''ns1''}"
    unfolding m0 by simp
  have cs: "child_sections sample_namespaces_section = secs" by (subst eq) simp
  have "list_all (\<lambda>sec. sec_parentLabel sec = Some ''Namespaces'' \<and> sec_parentId sec = Some ''ns1'') secs"
    unfolding list_all_iff using ids m by auto
  then have la: "list_all (\<lambda>sec. sec_parentLabel sec = Some ''Namespaces'' \<and> sec_parentId sec = Some ''ns1'')
        (child_sections sample_namespaces_section)"
    unfolding cs .
  have k: "map sec_key (child_sections sample_namespaces_section)
        = map cfg_key (cfg_children namespaces_config)"
    by (simp add: sample_namespaces_section_def namespaces_config_def)
  have c: "cfg_children namespaces_config \<noteq> []" by (simp add: namespaces_config_def)
  have pk': "list_all plain_keys (cfg_children namespaces_config)"
    using pk by (simp add: namespaces_config_def)
  from sample_namespaces_wf c pk' sample_namespaces_run m0 k la show ?thesis by blast
qed

text \<open>
  C8. On well-formed snapshots (objects in which every registry key, where present, holds
  an array of records whose ids convert to strings, and the same in the child collections
  of each record) \<^verbatim>\<open>compare\<close> returns a report, with one section for each registry
  entry, in registry order: the section that \<^verbatim>\<open>compareSection\<close> gives for the
  two collections found under the entry's key, an absent key standing for the empty
  collection. Where the key of an entry is absent from, or empty in, both snapshots, its
  section is there all the same and its \<^verbatim>\<open>totalDifferences\<close> is zero. Binding an absent
  key to the empty collection, in either snapshot, changes nothing in the report.
\<close>

theorem compare_total_on_well_formed:
  assumes "wf_snapshot saved" and "wf_snapshot current"
  shows "\<exists>rep. compare now saved current = Inr rep
    \<and> map sec_key (report_sections rep) = map cfg_key registry
    \<and> list_all2 (\<lambda>cfg sec. compareSection cfg (collection_at saved (cfg_key cfg))
                               (collection_at current (cfg_key cfg)) = Inr sec)
         registry (report_sections rep)
    \<and> (\<forall>i<length registry.
          absent_or_empty saved (cfg_key (registry ! i)) \<longrightarrow>
          absent_or_empty current (cfg_key (registry ! i)) \<longrightarrow>
          sec_key (report_sections rep ! i) = cfg_key (registry ! i)
          \<and> sec_totalDifferences (report_sections rep ! i) = 0)
    \<and> (\<forall>k. key_absent saved k \<longrightarrow> compare now (with_empty k saved) current = Inr rep)
    \<and> (\<forall>k. key_absent current k \<longrightarrow> compare now saved (with_empty k current) = Inr rep)"
proof -
  from assms obtain s c where s: "saved = JObj s" and c: "current = JObj c"
    by (cases saved; cases current) (auto simp: wf_snapshot_def wf_snapshot_for_def)
  from assms have ws: "wf_snapshot_for registry (JObj s)" and wc: "wf_snapshot_for registry (JObj c)"
    by (simp_all add: wf_snapshot_def s c)
  from compare_loop_wf[OF ws wc registry_plain_keys, of "[]" 0] obtain secs where
      run: "compare_loop registry (JObj s) (JObj c) ([], 0)
            = Inr (secs, sum_list (map sec_totalDifferences secs))"
    and l2: "list_all2 (\<lambda>cfg sec. compareSection cfg (collection_at (JObj s) (cfg_key cfg))
                                          (collection_at (JObj c) (cfg_key cfg)) = Inr sec) registry secs"
    by auto
  let ?rep = "\<lparr>report_timestamp = now, report_totalDifferences = sum_list (map sec_totalDifferences secs),
               report_sections = secs\<rparr>"
  have r: "compare now saved current = Inr ?rep"
    using run by (simp add: compare_def s c)
  have keys: "sec_key (secs ! i) = cfg_key (registry ! i)" if "i < length registry" for i
    using list_all2_nthD[OF l2 that] compareSection_key by blast
  have len: "length secs = length registry" using l2 by (simp add: list_all2_lengthD)
  have k: "map sec_key secs = map cfg_key registry"
    by (rule nth_equalityI) (simp_all add: len keys)
  have z: "sec_key (secs ! i) = cfg_key (registry ! i) \<and> sec_totalDifferences (secs ! i) = 0"
    if "i < length registry" "absent_or_empty saved (cfg_key (registry ! i))"
       "absent_or_empty current (cfg_key (registry ! i))" for i
  proof -
    from list_all2_nthD[OF l2 that(1)] that(2,3)
    have "compareSection (registry ! i) (Data (JArr [])) (Data (JArr [])) = Inr (secs ! i)"
      by (simp add: collection_at_absent_or_empty s c)
    from compareSection_empty[OF this] keys[OF that(1)] show ?thesis by simp
  qed
  have e1: "compare now (with_empty k saved) current = Inr ?rep" if "key_absent saved k" for k
    using compare_with_empty(1)[OF that c] r by simp
  have e2: "compare now saved (with_empty k current) = Inr ?rep" if "key_absent current k" for k
    using compare_with_empty(2)[OF that s] r by simp
  from r k l2 z e1 e2 show ?thesis unfolding s c by (intro exI[of _ ?rep]) simp
qed

text \<open>The sample snapshots have no \<^verbatim>\<open>roles\<close> key; the sixth section is the one for
  \<^verbatim>\<open>roles\<close>, with total zero.\<close>

theorem compare_total_on_well_formed_witness:
  "wf_snapshot sample_snapshot_saved \<and> wf_snapshot sample_snapshot_current
   \<and> compare ''t'' sample_snapshot_saved sample_snapshot_current
        = Inr (projr (compare ''t'' sample_snapshot_saved sample_snapshot_current))
   \<and> map sec_key (report_sections (projr (compare ''t'' sample_snapshot_saved sample_snapshot_current)))
        = map cfg_key registry
   \<and> absent_or_empty sample_snapshot_saved ''roles''
   \<and> absent_or_empty sample_snapshot_current ''roles''
   \<and> sec_key (report_sections (projr (compare ''t'' sample_snapshot_saved sample_snapshot_current)) ! 5)
        = ''roles''
   \<and> sec_totalDifferences
        (report_sections (projr (compare ''t'' sample_snapshot_saved sample_snapshot_current)) ! 5) = 0
   \<and> key_absent sample_snapshot_saved ''roles''
   \<and> compare ''t'' (with_empty ''roles'' sample_snapshot_saved) sample_snapshot_current
        = compare ''t'' sample_snapshot_saved sample_snapshot_current
   \<and> compare ''t'' sample_snapshot_saved (with_empty ''roles'' sample_snapshot_current)
        = compare ''t'' sample_snapshot_saved sample_snapshot_current"
proof -
  from compare_total_on_well_formed[OF sample_snapshots_wf, of "''t''"]
  obtain rep where r: "compare ''t'' sample_snapshot_saved sample_snapshot_current = Inr rep"
    and k: "map sec_key (report_sections rep) = map cfg_key registry"
    and z: "\<And>i. i < length registry \<Longrightarrow>
          absent_or_empty sample_snapshot_saved (cfg_key (registry ! i)) \<Longrightarrow>
          absent_or_empty sample_snapshot_current (cfg_key (registry ! i)) \<Longrightarrow>
          sec_key (report_sections rep ! i) = cfg_key (registry ! i)
          \<and> sec_totalDifferences (report_sections rep ! i) = 0"
    and e1: "\<And>k. key_absent sample_snapshot_saved k \<Longrightarrow>
          compare ''t'' (with_empty k sample_snapshot_saved) sample_snapshot_current = Inr rep"
    and e2: "\<And>k. key_absent sample_snapshot_current k \<Longrightarrow>
          compare ''t'' sample_snapshot_saved (with_empty k sample_snapshot_current) = Inr rep"
    by blast
  from r have p: "projr (compare ''t'' sample_snapshot_saved sample_snapshot_current) = rep" by simp
  from z[OF registry_roles(1)] sample_roles_absent(1,2)
  have z5: "sec_key (report_sections rep ! 5) = ''roles''"
    "sec_totalDifferences (report_sections rep ! 5) = 0"
    by (simp_all add: registry_roles(2))
  from sample_snapshots_wf r k sample_roles_absent z5 e1[OF sample_roles_absent(3)]
    e2[OF sample_roles_absent(4)]
  show ?thesis unfolding p by simp
qed

end
